theory Spec2Isabelle
  imports Complex_Main
begin

section \<open>JavaScript values used by the audio module\<close>

text \<open>
  The audio module (\<^verbatim>\<open>AudioPlayer\<close>) works on JavaScript numbers and strings.

  \<^item> A number is an IEEE 754 double: a finite value, \<^verbatim>\<open>NaN\<close>, \<^verbatim>\<open>Infinity\<close> or
    \<^verbatim>\<open>-Infinity\<close>. A finite double is kept as the rational it denotes, and every
    operation that produces a number rounds its exact result to the nearest double,
    ties to the even significand, and overflows to an infinity. The sign of zero is
    not kept (\<^verbatim>\<open>-0\<close> is \<^verbatim>\<open>0\<close>; no comparison of the module tells them apart).
  \<^item> A string is a \<open>char list\<close>: the code units below 256.
\<close>

datatype jsnum = Fin rat | NaN | PosInf | NegInf

datatype error = TypeError

subsection \<open>Rounding to a double\<close>

text \<open>The nearest integer, a tie going to the even one.\<close>

definition roundHalfEven :: "rat \<Rightarrow> int" where
  "roundHalfEven y =
     (let f = \<lfloor>y\<rfloor>; r = y - of_int f
      in if r < 1 / 2 then f
         else if 1 / 2 < r then f + 1
         else if even f then f else f + 1)"

text \<open>A positive value \<open>a\<close> is brought to the form \<open>x * 2 ^ ex\<close> with
  \<open>2 ^ 52 \<le> x < 2 ^ 53\<close> (a normal double has 53 significant bits), or with
  \<open>x < 2 ^ 52\<close> and \<open>ex = - 1074\<close>, the least exponent (a subnormal double):
  halve while \<open>x\<close> is \<open>2 ^ 53 = 9007199254740992\<close> or more, then double while it is
  below \<open>2 ^ 52 = 4503599627370496\<close> and the exponent is above the least.\<close>

function scaleDown :: "rat \<Rightarrow> int \<Rightarrow> rat \<times> int" where
  "scaleDown x ex =
     (if 9007199254740992 \<le> x then scaleDown (x / 2) (ex + 1) else (x, ex))"
  by pat_completeness auto
termination
proof (relation "measure (\<lambda>(x, ex). nat \<lfloor>x\<rfloor>)", goal_cases)
  case 1
  show ?case by simp
next
  case (2 x ex)
  then have "x / 2 \<le> x - 1" by simp
  then have "\<lfloor>x / 2\<rfloor> \<le> \<lfloor>x - 1\<rfloor>" by (rule floor_mono)
  moreover have "0 < \<lfloor>x\<rfloor>" using 2 by simp
  ultimately show ?case by simp
qed

declare scaleDown.simps [simp del]

function scaleUp :: "rat \<Rightarrow> int \<Rightarrow> rat \<times> int" where
  "scaleUp x ex =
     (if x < 4503599627370496 \<and> - 1074 < ex then scaleUp (x * 2) (ex - 1) else (x, ex))"
  by pat_completeness auto
termination
  by (relation "measure (\<lambda>(x, ex). nat (ex + 1074))") auto

declare scaleUp.simps [simp del]

definition normalise :: "rat \<Rightarrow> rat \<times> int" where
  "normalise a = (case scaleDown a 0 of (x, ex) \<Rightarrow> scaleUp x ex)"

text \<open>The Number value of a rational: the significand is rounded to an integer \<open>m\<close>
  and the double is \<open>m * 2 ^ ex\<close>; it is an infinity when that reaches \<open>2 ^ 1024\<close>,
  which is when the exponent is above 971, or is 971 with the significand rounded
  up to \<open>2 ^ 53\<close>.\<close>

definition roundDouble :: "rat \<Rightarrow> jsnum" where
  "roundDouble a =
     (if a = 0 then Fin 0
      else (let x = fst (normalise \<bar>a\<bar>);
                ex = snd (normalise \<bar>a\<bar>);
                m = roundHalfEven x
            in if 971 < ex \<or> (ex = 971 \<and> m = 9007199254740992)
               then (if a < 0 then NegInf else PosInf)
               else Fin (if a < 0 then - (of_int m * 2 powi ex) else of_int m * 2 powi ex)))"

subsection \<open>Arithmetic and comparison\<close>

text \<open>The operators \<^verbatim>\<open>+\<close> and \<^verbatim>\<open>*\<close> on numbers: the exact result, rounded.\<close>

fun jadd :: "jsnum \<Rightarrow> jsnum \<Rightarrow> jsnum" where
  "jadd NaN _ = NaN"
| "jadd _ NaN = NaN"
| "jadd (Fin a) (Fin b) = roundDouble (a + b)"
| "jadd PosInf NegInf = NaN"
| "jadd NegInf PosInf = NaN"
| "jadd PosInf _ = PosInf"
| "jadd _ PosInf = PosInf"
| "jadd NegInf _ = NegInf"
| "jadd _ NegInf = NegInf"

fun jsign :: "jsnum \<Rightarrow> rat" where
  "jsign (Fin a) = a"
| "jsign PosInf = 1"
| "jsign NegInf = - 1"
| "jsign NaN = 0"

fun jmul :: "jsnum \<Rightarrow> jsnum \<Rightarrow> jsnum" where
  "jmul NaN _ = NaN"
| "jmul _ NaN = NaN"
| "jmul (Fin a) (Fin b) = roundDouble (a * b)"
| "jmul a b =
     (if jsign a = 0 \<or> jsign b = 0 then NaN
      else if (jsign a < 0) = (jsign b < 0) then PosInf else NegInf)"

text \<open>The relational operators \<^verbatim>\<open><=\<close>, \<^verbatim>\<open>>=\<close>, \<^verbatim>\<open>>\<close> and \<^verbatim>\<open>===\<close>: every comparison
  with \<^verbatim>\<open>NaN\<close> is false.\<close>

fun jle :: "jsnum \<Rightarrow> jsnum \<Rightarrow> bool" where
  "jle NaN _ = False"
| "jle _ NaN = False"
| "jle (Fin a) (Fin b) = (a \<le> b)"
| "jle NegInf _ = True"
| "jle _ PosInf = True"
| "jle _ _ = False"

definition jge :: "jsnum \<Rightarrow> jsnum \<Rightarrow> bool" where
  "jge a b = jle b a"

fun jgt :: "jsnum \<Rightarrow> jsnum \<Rightarrow> bool" where
  "jgt NaN _ = False"
| "jgt _ NaN = False"
| "jgt (Fin a) (Fin b) = (a > b)"
| "jgt PosInf PosInf = False"
| "jgt PosInf _ = True"
| "jgt NegInf _ = False"
| "jgt (Fin a) NegInf = True"
| "jgt (Fin a) PosInf = False"

definition strictEq :: "jsnum \<Rightarrow> jsnum \<Rightarrow> bool" where
  "strictEq a b = (a \<noteq> NaN \<and> a = b)"

subsection \<open>Strings\<close>

text \<open>\<^verbatim>\<open>xs[i]\<close> on an array: \<^verbatim>\<open>undefined\<close> out of range.\<close>

definition nth_opt :: "'a list \<Rightarrow> nat \<Rightarrow> 'a option" where
  "nth_opt xs i = (if i < length xs then Some (xs ! i) else None)"

text \<open>\<^verbatim>\<open>ToString\<close> of a value that is a string or \<^verbatim>\<open>undefined\<close>.\<close>

definition toString :: "string option \<Rightarrow> string" where
  "toString v = (case v of None \<Rightarrow> ''undefined'' | Some s \<Rightarrow> s)"

text \<open>White space and line terminators of ECMAScript among the code units below 256:
  TAB, LF, VT, FF, CR, SPACE and NO-BREAK SPACE.\<close>

definition isWhiteSpace :: "char \<Rightarrow> bool" where
  "isWhiteSpace c = ((of_char c :: nat) \<in> {9, 10, 11, 12, 13, 32, 160})"

definition trimStart :: "string \<Rightarrow> string" where
  "trimStart s = dropWhile isWhiteSpace s"

definition trim :: "string \<Rightarrow> string" where
  "trim s = rev (dropWhile isWhiteSpace (rev (dropWhile isWhiteSpace s)))"

fun startsWith :: "string \<Rightarrow> string \<Rightarrow> bool" where
  "startsWith s [] = True"
| "startsWith [] (p # ps) = False"
| "startsWith (c # cs) (p # ps) = (c = p \<and> startsWith cs ps)"

text \<open>\<^verbatim>\<open>s.includes(sub)\<close>.\<close>

fun includes_str :: "string \<Rightarrow> string \<Rightarrow> bool" where
  "includes_str [] sub = (sub = [])"
| "includes_str (c # cs) sub = (startsWith (c # cs) sub \<or> includes_str cs sub)"

text \<open>\<^verbatim>\<open>s.split(sep)\<close> for a non-empty separator string (the module only splits on the
  literals \<^verbatim>\<open>'\n'\<close>, \<^verbatim>\<open>'-->'\<close>, \<^verbatim>\<open>':'\<close> and \<^verbatim>\<open>'.'\<close>): the pieces between the
  occurrences of the separator, found from left to right without overlap. The result
  is never empty.\<close>

function split :: "string \<Rightarrow> string \<Rightarrow> string list" where
  "split [] sep = [[]]"
| "split (c # cs) sep =
     (if sep \<noteq> [] \<and> startsWith (c # cs) sep
      then [] # split (drop (length sep) (c # cs)) sep
      else (case split cs sep of
              [] \<Rightarrow> [[c]]
            | p # ps \<Rightarrow> (c # p) # ps))"
  by pat_completeness auto
termination
  by (relation "measure (\<lambda>(s, sep). length s)") (auto simp: neq_Nil_conv)

subsection \<open>\<^verbatim>\<open>parseInt\<close> and \<^verbatim>\<open>parseFloat\<close>\<close>

text \<open>The value of a character as a digit of radix up to 36, as \<^verbatim>\<open>parseInt\<close> reads it.\<close>

definition digitValue :: "char \<Rightarrow> nat option" where
  "digitValue c =
     (let n = (of_char c :: nat)
      in if 48 \<le> n \<and> n \<le> 57 then Some (n - 48)
         else if 97 \<le> n \<and> n \<le> 122 then Some (n - 87)
         else if 65 \<le> n \<and> n \<le> 90 then Some (n - 55)
         else None)"

definition isRadixDigit :: "nat \<Rightarrow> char \<Rightarrow> bool" where
  "isRadixDigit R c = (case digitValue c of None \<Rightarrow> False | Some d \<Rightarrow> d < R)"

definition digitNat :: "char \<Rightarrow> nat" where
  "digitNat c = (case digitValue c of None \<Rightarrow> 0 | Some d \<Rightarrow> d)"

text \<open>The mathematical value of a digit string in radix \<open>R\<close>.\<close>

definition digitsValue :: "nat \<Rightarrow> string \<Rightarrow> nat" where
  "digitsValue R ds = foldl (\<lambda>a c. a * R + digitNat c) 0 ds"

text \<open>\<^verbatim>\<open>parseInt(string)\<close> with no radix argument (ECMAScript 19.2.5): leading white
  space is skipped, a sign is read, a prefix \<^verbatim>\<open>0x\<close> or \<^verbatim>\<open>0X\<close> selects radix 16, and
  the longest run of digits is read; \<^verbatim>\<open>NaN\<close> when that run is empty, else the
  Number value of the integer the digits denote. (Past 20 significant digits
  ECMAScript lets an implementation approximate; the model rounds the exact value.)\<close>

definition parseInt :: "string \<Rightarrow> jsnum" where
  "parseInt string =
     (let S = trimStart string;
          neg = startsWith S ''-'';
          S1 = (if startsWith S ''+'' \<or> startsWith S ''-'' then tl S else S);
          hex = (startsWith S1 ''0x'' \<or> startsWith S1 ''0X'');
          R = (if hex then 16 else 10);
          S2 = (if hex then drop 2 S1 else S1);
          Z = takeWhile (isRadixDigit R) S2
      in if Z = [] then NaN
         else if neg then roundDouble (- of_nat (digitsValue R Z))
         else roundDouble (of_nat (digitsValue R Z)))"

text \<open>The exponent part of a decimal literal at the head of a string: \<^verbatim>\<open>e\<close> or \<^verbatim>\<open>E\<close>,
  an optional sign, and at least one digit. No exponent part gives exponent 0.\<close>

definition exponentPart :: "string \<Rightarrow> int" where
  "exponentPart s =
     (if startsWith s ''e'' \<or> startsWith s ''E''
      then (let r = tl s;
                neg = startsWith r ''-'';
                r1 = (if startsWith r ''+'' \<or> startsWith r ''-'' then tl r else r);
                ds = takeWhile (isRadixDigit 10) r1
            in if neg then - int (digitsValue 10 ds) else int (digitsValue 10 ds))
      else 0)"

definition scale10 :: "rat \<Rightarrow> int \<Rightarrow> rat" where
  "scale10 m e = (if 0 \<le> e then m * 10 ^ nat e else m / 10 ^ nat (- e))"

text \<open>\<^verbatim>\<open>parseFloat(string)\<close> (ECMAScript 19.2.4): leading white space is skipped and the
  longest prefix that is a \<^verbatim>\<open>StrDecimalLiteral\<close> is the value: an optional sign, then
  \<^verbatim>\<open>Infinity\<close>, or digits with an optional fraction and an optional exponent part;
  \<^verbatim>\<open>NaN\<close> when there is no such prefix, else the Number value of the decimal the
  prefix denotes.\<close>

definition parseFloat :: "string \<Rightarrow> jsnum" where
  "parseFloat string =
     (let S = trimStart string;
          neg = startsWith S ''-'';
          S1 = (if startsWith S ''+'' \<or> startsWith S ''-'' then tl S else S);
          ip = takeWhile (isRadixDigit 10) S1;
          r1 = dropWhile (isRadixDigit 10) S1;
          dot = startsWith r1 ''.'';
          fp = (if dot then takeWhile (isRadixDigit 10) (tl r1) else []);
          r2 = (if dot then dropWhile (isRadixDigit 10) (tl r1) else r1);
          m = of_nat (digitsValue 10 (ip @ fp)) / 10 ^ length fp;
          v = scale10 m (exponentPart r2)
      in if startsWith S1 ''Infinity'' then (if neg then NegInf else PosInf)
         else if ip = [] \<and> fp = [] then NaN
         else if neg then roundDouble (- v) else roundDouble v)"

section \<open>The timestamp parser\<close>

text \<open>\<^verbatim>\<open>AudioPlayer.parseTimestamp\<close>. A method call on \<^verbatim>\<open>undefined\<close> is the only way
  the function can throw, and it is a branch of the model.\<close>

definition parseTimestamp :: "string \<Rightarrow> error + jsnum" where
  "parseTimestamp timestamp =
     (let parts = split timestamp '':''
      in case nth_opt parts (length parts - 1) of
           None \<Rightarrow> Inl TypeError
         | Some lastPart \<Rightarrow>
             (let seconds = split lastPart ''.'';
                  totalSeconds =
                    (if length parts = 3
                     then jadd (jadd (jmul (parseInt (toString (nth_opt parts 0))) (Fin 3600))
                                     (jmul (parseInt (toString (nth_opt parts 1))) (Fin 60)))
                               (parseFloat (toString (nth_opt seconds 0)))
                     else if length parts = 2
                     then jadd (jmul (parseInt (toString (nth_opt parts 0))) (Fin 60))
                               (parseFloat (toString (nth_opt seconds 0)))
                     else parseFloat (toString (nth_opt seconds 0)))
              in Inr (if length seconds > 1
                      then jadd totalSeconds
                             (parseFloat (''0.'' @ toString (nth_opt seconds 1)))
                      else totalSeconds)))"

section \<open>The state of the audio module\<close>

text \<open>A cue, parsed by the module (\<^verbatim>\<open>{startTime, endTime, text}\<close>) or exposed by the
  browser's text track (the same three properties of a \<^verbatim>\<open>VTTCue\<close>).\<close>

record cue =
  startTime :: jsnum
  endTime :: jsnum
  cueText :: string

text \<open>The display surface: the element \<^verbatim>\<open>subtitleText\<close>, with its text and its list
  of classes.\<close>

record display =
  textContent :: string
  classList :: "string list"

text \<open>The audio element as the module reads it: the playback position and the paused
  flag.\<close>

record audio =
  currentTime :: jsnum
  paused :: bool

text \<open>The native text track: its cue list may be \<^verbatim>\<open>null\<close>.\<close>

record textTrack =
  cues :: "cue list option"

text \<open>The object \<^verbatim>\<open>AudioPlayer\<close> after \<^verbatim>\<open>init\<close> has found both elements (\<^verbatim>\<open>init\<close>
  returns before installing anything when one of them is missing); \<^verbatim>\<open>track\<close> may
  still be \<^verbatim>\<open>null\<close>.\<close>

record audioPlayer =
  player :: audio
  subtitleDisplay :: display
  track :: "textTrack option"
  manualCues :: "cue list"

text \<open>\<^verbatim>\<open>classList.add\<close> and \<^verbatim>\<open>classList.remove\<close>.\<close>

definition classAdd :: "string \<Rightarrow> string list \<Rightarrow> string list" where
  "classAdd c cl = (if c \<in> set cl then cl else cl @ [c])"

definition classRemove :: "string \<Rightarrow> string list \<Rightarrow> string list" where
  "classRemove c cl = filter (\<lambda>x. x \<noteq> c) cl"

section \<open>Parsing the caption file\<close>

text \<open>The first loop of \<^verbatim>\<open>parseVTT\<close>: skip the header.\<close>

function skipHeader :: "string list \<Rightarrow> nat \<Rightarrow> nat" where
  "skipHeader lines i =
     (if i < length lines \<and> \<not> includes_str (lines ! i) ''-->''
      then skipHeader lines (i + 1) else i)"
  by pat_completeness auto
termination
  by (relation "measure (\<lambda>(lines, i). length lines - i)") auto

declare skipHeader.simps [simp del]

text \<open>The inner loop: the cue's text, up to a blank line or the end of the input.\<close>

function readText :: "string list \<Rightarrow> nat \<Rightarrow> string \<Rightarrow> nat \<times> string" where
  "readText lines i tx =
     (if i < length lines \<and> trim (lines ! i) \<noteq> []
      then readText lines (i + 1)
             ((if tx \<noteq> [] then tx @ '' '' else tx) @ trim (lines ! i))
      else (i, tx))"
  by pat_completeness auto
termination
  by (relation "measure (\<lambda>(lines, i, tx). length lines - i)") auto

declare readText.simps [simp del]

lemma readText_ge: "i \<le> fst (readText lines i tx)"
proof (induction lines i tx rule: readText.induct)
  case (1 lines i tx)
  show ?case
  proof (cases "i < length lines \<and> trim (lines ! i) \<noteq> []")
    case True
    with 1 have "i + 1 \<le> fst (readText lines i tx)"
      by (subst readText.simps) simp
    then show ?thesis by simp
  next
    case False
    then show ?thesis by (subst readText.simps) auto
  qed
qed

text \<open>The main loop of \<^verbatim>\<open>parseVTT\<close>. It pushes onto \<^verbatim>\<open>this.manualCues\<close>; an exception
  would leave the cues pushed so far, so the result is the exception, if any, and the
  list.\<close>

function parseCues :: "string list \<Rightarrow> nat \<Rightarrow> cue list \<Rightarrow> error option \<times> cue list" where
  "parseCues lines i mc =
     (if i < length lines
      then (let line = trim (lines ! i)
            in if includes_str line ''-->''
               then (let times = split line ''-->''
                     in case nth_opt times 0 of
                          None \<Rightarrow> (Some TypeError, mc)
                        | Some t0 \<Rightarrow>
                     (case parseTimestamp (trim t0) of
                          Inl e \<Rightarrow> (Some e, mc)
                        | Inr start \<Rightarrow>
                     (case nth_opt times 1 of
                          None \<Rightarrow> (Some TypeError, mc)
                        | Some t1 \<Rightarrow>
                     (case parseTimestamp (trim t1) of
                          Inl e \<Rightarrow> (Some e, mc)
                        | Inr end \<Rightarrow>
                            parseCues lines (fst (readText lines (i + 1) []) + 1)
                              (mc @ [\<lparr>startTime = start, endTime = end,
                                      cueText = snd (readText lines (i + 1) [])\<rparr>])))))
               else parseCues lines (i + 1) mc)
      else (None, mc))"
  by pat_completeness auto
termination
proof (relation "measure (\<lambda>(lines, i, mc). length lines - i)", goal_cases)
  case 1
  show ?case by simp
next
  case (2 lines i mc line times t0 start t1 e)
  have "i + 1 \<le> fst (readText lines (i + 1) [])"
    by (rule readText_ge)
  with 2 show ?case by simp
next
  case 3
  then show ?case by simp
qed

declare parseCues.simps [simp del]

text \<open>\<^verbatim>\<open>AudioPlayer.parseVTT\<close>.\<close>

definition parseVTT :: "string \<Rightarrow> audioPlayer \<Rightarrow> error option \<times> audioPlayer" where
  "parseVTT vttText this =
     (let lines = split vttText ''\<newline>'';
          i = skipHeader lines 0;
          r = parseCues lines i (manualCues this)
      in (fst r, this\<lparr>manualCues := snd r\<rparr>))"

section \<open>Resolving the active cue\<close>

text \<open>The \<^verbatim>\<open>for\<close> loop of \<^verbatim>\<open>updateSubtitleByTime\<close> (the same loop runs over the native
  cues and over the manually parsed ones): the first cue from index \<open>i\<close> on whose
  interval holds the time.\<close>

function scanCues :: "cue list \<Rightarrow> jsnum \<Rightarrow> nat \<Rightarrow> cue option" where
  "scanCues cs t i =
     (if i < length cs
      then (if jge t (startTime (cs ! i)) \<and> jle t (endTime (cs ! i))
            then Some (cs ! i)
            else scanCues cs t (i + 1))
      else None)"
  by pat_completeness auto
termination
  by (relation "measure (\<lambda>(cs, t, i). length cs - i)") auto

declare scanCues.simps [simp del]

text \<open>The choice of the list: the native cues when the track has at least one, else
  the manually parsed cues.\<close>

definition currentCue :: "audioPlayer \<Rightarrow> cue option" where
  "currentCue this =
     (let t = currentTime (player this);
          manual = (if length (manualCues this) > 0
                    then scanCues (manualCues this) t 0 else None)
      in case track this of
           None \<Rightarrow> manual
         | Some tr \<Rightarrow>
             (case cues tr of
                None \<Rightarrow> manual
              | Some cs \<Rightarrow> if length cs > 0 then scanCues cs t 0 else manual))"

text \<open>\<^verbatim>\<open>AudioPlayer.updateSubtitleByTime\<close>.\<close>

definition updateSubtitleByTime :: "audioPlayer \<Rightarrow> audioPlayer" where
  "updateSubtitleByTime this =
     (case currentCue this of
        Some c \<Rightarrow>
          this\<lparr>subtitleDisplay :=
                 \<lparr>textContent = cueText c,
                  classList = classAdd ''active'' (classList (subtitleDisplay this))\<rparr>\<rparr>
      | None \<Rightarrow>
          if jgt (currentTime (player this)) (Fin 0) \<and> \<not> paused (player this)
          then this\<lparr>subtitleDisplay :=
                 \<lparr>textContent = ''...'',
                  classList = classRemove ''active'' (classList (subtitleDisplay this))\<rparr>\<rparr>
          else this)"

text \<open>The listener of \<^verbatim>\<open>timeupdate\<close> installed by \<^verbatim>\<open>setupSubtitles\<close>: it calls
  \<^verbatim>\<open>updateSubtitleByTime\<close> only when the native track has cues.\<close>

definition onTimeupdate :: "audioPlayer \<Rightarrow> audioPlayer" where
  "onTimeupdate this =
     (case track this of
        None \<Rightarrow> this
      | Some tr \<Rightarrow>
          (case cues tr of
             None \<Rightarrow> this
           | Some cs \<Rightarrow> if length cs > 0 then updateSubtitleByTime this else this))"

text \<open>The listener of \<^verbatim>\<open>pause\<close> installed by \<^verbatim>\<open>setupEventListeners\<close>.\<close>

definition onPause :: "audioPlayer \<Rightarrow> audioPlayer" where
  "onPause this =
     (if strictEq (currentTime (player this)) (Fin 0)
      then this\<lparr>subtitleDisplay :=
             \<lparr>textContent = ''Press play to start the audio guide...'',
              classList = classRemove ''active'' (classList (subtitleDisplay this))\<rparr>\<rparr>
      else this)"

section \<open>Loading the caption file\<close>

text \<open>The two transports settle once each. What the environment answers is the input
  of the model: \<^verbatim>\<open>fetch\<close> rejects, or resolves with a response (its status, and its
  body unless reading the body rejects); the \<^verbatim>\<open>XMLHttpRequest\<close> fires \<^verbatim>\<open>error\<close>, or
  \<^verbatim>\<open>load\<close> with a status and a response text.\<close>

datatype fetchOutcome = FetchRejected | FetchResponse nat "string option"

datatype xhrOutcome = XhrError | XhrLoad nat string

record network =
  fetchResult :: fetchOutcome
  xhrResult :: xhrOutcome

text \<open>What a load does to the outside, in order: the requests it sends and the
  messages it writes to the display surface.\<close>

datatype event = FetchCalled | XhrSent | Published string

text \<open>\<^verbatim>\<open>response.ok\<close>: a status from 200 to 299.\<close>

definition responseOk :: "nat \<Rightarrow> bool" where
  "responseOk status = (200 \<le> status \<and> status \<le> 299)"

definition publish :: "string \<Rightarrow> audioPlayer \<Rightarrow> audioPlayer" where
  "publish msg this =
     this\<lparr>subtitleDisplay := (subtitleDisplay this)\<lparr>textContent := msg\<rparr>\<rparr>"

text \<open>\<^verbatim>\<open>AudioPlayer.loadVTTWithXHR\<close>.\<close>

definition loadVTTWithXHR :: "network \<Rightarrow> audioPlayer \<Rightarrow> event list \<times> audioPlayer" where
  "loadVTTWithXHR net this =
     (case xhrResult net of
        XhrLoad status responseText \<Rightarrow>
          if status = 200 \<or> status = 0
          then ([XhrSent], snd (parseVTT responseText this))
          else ([XhrSent,
                 Published ''Unable to load subtitles. Please use a local server or try Safari.''],
                publish ''Unable to load subtitles. Please use a local server or try Safari.'' this)
      | XhrError \<Rightarrow>
          ([XhrSent,
            Published ''Subtitles unavailable in this browser. Try Safari or use a local server.''],
           publish ''Subtitles unavailable in this browser. Try Safari or use a local server.'' this))"

text \<open>\<^verbatim>\<open>AudioPlayer.loadVTTManually\<close>: the promise chain. Its \<^verbatim>\<open>catch\<close> runs when
  \<^verbatim>\<open>fetch\<close> rejects, when the status is not ok, when reading the body rejects, and
  when \<^verbatim>\<open>parseVTT\<close> throws.\<close>

definition loadVTTManually :: "network \<Rightarrow> audioPlayer \<Rightarrow> event list \<times> audioPlayer" where
  "loadVTTManually net this =
     (let catch = (\<lambda>this'. (FetchCalled # fst (loadVTTWithXHR net this'),
                             snd (loadVTTWithXHR net this')))
      in case fetchResult net of
           FetchRejected \<Rightarrow> catch this
         | FetchResponse status body \<Rightarrow>
             if \<not> responseOk status then catch this
             else (case body of
                     None \<Rightarrow> catch this
                   | Some vttText \<Rightarrow>
                       (case fst (parseVTT vttText this) of
                          None \<Rightarrow> ([FetchCalled], snd (parseVTT vttText this))
                        | Some e \<Rightarrow> catch (snd (parseVTT vttText this)))))"

section \<open>The specification's notions\<close>

subsection \<open>The timestamp grammar\<close>

definition isDigit :: "char \<Rightarrow> bool" where
  "isDigit c = (c \<in> set ''0123456789'')"

text \<open>A field of the grammar (\<^verbatim>\<open>HH\<close>, \<^verbatim>\<open>MM\<close>, \<^verbatim>\<open>SS\<close>, \<^verbatim>\<open>mmm\<close>): decimal digits, at
  least one. Its value is \<open>digitsValue 10\<close>.\<close>

definition isDigits :: "string \<Rightarrow> bool" where
  "isDigits s = (s \<noteq> [] \<and> list_all isDigit s)"

text \<open>The optional fractional part: its text \<^verbatim>\<open>.mmm\<close> and the exact value of
  \<^verbatim>\<open>0.mmm\<close>.\<close>

definition fracText :: "string option \<Rightarrow> string" where
  "fracText F = (case F of None \<Rightarrow> [] | Some f \<Rightarrow> ''.'' @ f)"

definition fracValue :: "string option \<Rightarrow> rat" where
  "fracValue F =
     (case F of None \<Rightarrow> 0 | Some f \<Rightarrow> of_nat (digitsValue 10 f) / 10 ^ length f)"

definition wfFrac :: "string option \<Rightarrow> bool" where
  "wfFrac F = (case F of None \<Rightarrow> True | Some f \<Rightarrow> isDigits f)"

text \<open>The numbers of the formula \<open>H * 3600 + M * 60 + S + 0.fff\<close>: the Number value of
  a field of digits, the Number value of \<^verbatim>\<open>0.fff\<close>, and the sum with the fraction when
  there is one.\<close>

definition fieldNumber :: "string \<Rightarrow> jsnum" where
  "fieldNumber ds = roundDouble (of_nat (digitsValue 10 ds))"

definition fracNumber :: "string \<Rightarrow> jsnum" where
  "fracNumber f = roundDouble (of_nat (digitsValue 10 f) / 10 ^ length f)"

definition addFraction :: "jsnum \<Rightarrow> string option \<Rightarrow> jsnum" where
  "addFraction x F = (case F of None \<Rightarrow> x | Some f \<Rightarrow> jadd x (fracNumber f))"

text \<open>The grammar as a recogniser, and the seconds a well-formed timestamp denotes
  as an exact rational: one to three fields of digits between colons, the last with
  an optional fraction.\<close>

definition secondsValue :: "string \<Rightarrow> rat option" where
  "secondsValue s =
     (case split s ''.'' of
        [S] \<Rightarrow> if isDigits S then Some (of_nat (digitsValue 10 S)) else None
      | [S, f] \<Rightarrow>
          if isDigits S \<and> isDigits f
          then Some (of_nat (digitsValue 10 S) + of_nat (digitsValue 10 f) / 10 ^ length f)
          else None
      | _ \<Rightarrow> None)"

definition timestampValue :: "string \<Rightarrow> rat option" where
  "timestampValue t =
     (case split t '':'' of
        [S] \<Rightarrow> secondsValue S
      | [M, S] \<Rightarrow>
          (case secondsValue S of
             None \<Rightarrow> None
           | Some v \<Rightarrow> if isDigits M then Some (of_nat (digitsValue 10 M) * 60 + v) else None)
      | [H, M, S] \<Rightarrow>
          (case secondsValue S of
             None \<Rightarrow> None
           | Some v \<Rightarrow>
               if isDigits H \<and> isDigits M
               then Some (of_nat (digitsValue 10 H) * 3600 + of_nat (digitsValue 10 M) * 60 + v)
               else None)
      | _ \<Rightarrow> None)"

subsection \<open>The cues a text encodes\<close>

definition nonBlank :: "string \<Rightarrow> bool" where
  "nonBlank l = (trim l \<noteq> [])"

definition isTiming :: "string \<Rightarrow> bool" where
  "isTiming l = includes_str l ''-->''"

fun joinText :: "string list \<Rightarrow> string" where
  "joinText [] = []"
| "joinText [x] = x"
| "joinText (x # y # ys) = x @ '' '' @ joinText (y # ys)"

text \<open>The \<open>k\<close>-th timestamp field of a timing line, stripped of surrounding white
  space, and its time.\<close>

definition timingField :: "string \<Rightarrow> nat \<Rightarrow> string" where
  "timingField l k = trim (toString (nth_opt (split (trim l) ''-->'') k))"

definition fieldTime :: "string \<Rightarrow> nat \<Rightarrow> jsnum" where
  "fieldTime l k = (case parseTimestamp (timingField l k) of Inl e \<Rightarrow> NaN | Inr v \<Rightarrow> v)"

text \<open>The cue of a timing line followed by the lines \<open>rest\<close>: its text is the run of
  non-blank lines that follows, each stripped of surrounding white space, joined with
  single spaces.\<close>

definition cueOf :: "string \<Rightarrow> string list \<Rightarrow> cue" where
  "cueOf l rest =
     \<lparr>startTime = fieldTime l 0, endTime = fieldTime l 1,
      cueText = joinText (map trim (takeWhile nonBlank rest))\<rparr>"

text \<open>Reading the lines in order: a timing line gives a cue and takes the non-blank
  lines after it; any other line is ignored.\<close>

function cuesOfLines :: "string list \<Rightarrow> cue list" where
  "cuesOfLines [] = []"
| "cuesOfLines (l # rest) =
     (if isTiming l then cueOf l rest # cuesOfLines (dropWhile nonBlank rest)
      else cuesOfLines rest)"
  by pat_completeness auto
termination
  by (relation "measure length") (auto simp: length_dropWhile_le less_Suc_eq_le)

text \<open>One step of the inner loop on the text read so far.\<close>

definition addLine :: "string \<Rightarrow> string \<Rightarrow> string" where
  "addLine tx l = (if tx \<noteq> [] then tx @ '' '' else tx) @ trim l"

text \<open>The number the parser computes for \<open>v\<close> seconds while the whole seconds are
  exact: the whole seconds plus the Number value of the fraction.\<close>

definition secondsNumber :: "rat \<Rightarrow> jsnum" where
  "secondsNumber v = jadd (Fin (of_int \<lfloor>v\<rfloor>)) (roundDouble (frac v))"

text \<open>A timing line whose two fields are well-formed timestamps, the first not later
  than the second, both below \<open>2 ^ 53\<close> seconds (so that the whole seconds are
  computed without rounding).\<close>

definition wellFormedTiming :: "string \<Rightarrow> bool" where
  "wellFormedTiming l =
     (case timestampValue (timingField l 0) of
        None \<Rightarrow> False
      | Some a \<Rightarrow>
          (case timestampValue (timingField l 1) of
             None \<Rightarrow> False
           | Some b \<Rightarrow> a \<le> b \<and> b < 9007199254740992))"

definition encodedCues :: "string \<Rightarrow> cue list" where
  "encodedCues rawText =
     cuesOfLines (dropWhile (\<lambda>l. \<not> isTiming l) (split rawText ''\<newline>''))"

subsection \<open>Intervals\<close>

text \<open>\<open>startTime \<le> t \<le> endTime\<close>, both ends included.\<close>

definition covers :: "cue \<Rightarrow> jsnum \<Rightarrow> bool" where
  "covers c t = (jle (startTime c) t \<and> jle t (endTime c))"

text \<open>What a scan of the list \<open>cs\<close> at time \<open>t\<close> has to return: nothing when no cue
  covers \<open>t\<close>, else the cue of least index that covers \<open>t\<close>.\<close>

definition firstCovering :: "cue list \<Rightarrow> jsnum \<Rightarrow> cue option \<Rightarrow> bool" where
  "firstCovering cs t r =
     (case r of
        None \<Rightarrow> (\<forall>i < length cs. \<not> covers (cs ! i) t)
      | Some c \<Rightarrow>
          (\<exists>i < length cs. c = cs ! i \<and> covers c t \<and> (\<forall>j < i. \<not> covers (cs ! j) t)))"

text \<open>The invariant of the data model: \<open>0 \<le> startTime \<le> endTime\<close>.\<close>

definition timesOrdered :: "cue \<Rightarrow> bool" where
  "timesOrdered c = (jle (Fin 0) (startTime c) \<and> jle (startTime c) (endTime c))"

subsection \<open>Outcomes of the transports\<close>

text \<open>The primary transport fails: a network error, or a status that is not 2xx.\<close>

definition primaryFails :: "network \<Rightarrow> bool" where
  "primaryFails net =
     (case fetchResult net of
        FetchRejected \<Rightarrow> True
      | FetchResponse status body \<Rightarrow> \<not> responseOk status)"

subsection \<open>A player to start from\<close>

text \<open>The object as its literal leaves it (no track, no parsed cue), with an audio
  element at position 0 that is not playing and an empty display surface.\<close>

definition initialPlayer :: audioPlayer where
  "initialPlayer =
     \<lparr>player = \<lparr>currentTime = Fin 0, paused = True\<rparr>,
      subtitleDisplay = \<lparr>textContent = [], classList = []\<rparr>,
      track = None,
      manualCues = []\<rparr>"

section \<open>Properties of the rounding\<close>

lemma roundHalfEven_of_int: "roundHalfEven (of_int n) = n"
  by (simp add: roundHalfEven_def)

lemma roundHalfEven_lower: "\<lfloor>y\<rfloor> \<le> roundHalfEven y"
  by (simp add: roundHalfEven_def Let_def)

lemma roundHalfEven_upper: "roundHalfEven y \<le> \<lfloor>y\<rfloor> + 1"
  by (simp add: roundHalfEven_def Let_def)

lemma roundHalfEven_mono:
  assumes "x \<le> y"
  shows "roundHalfEven x \<le> roundHalfEven y"
proof (cases "\<lfloor>x\<rfloor> < \<lfloor>y\<rfloor>")
  case True
  have "roundHalfEven x \<le> \<lfloor>x\<rfloor> + 1" by (rule roundHalfEven_upper)
  also have "\<dots> \<le> \<lfloor>y\<rfloor>" using True by simp
  also have "\<dots> \<le> roundHalfEven y" by (rule roundHalfEven_lower)
  finally show ?thesis .
next
  case False
  with floor_mono[OF assms] have eq: "\<lfloor>x\<rfloor> = \<lfloor>y\<rfloor>" by simp
  have "x - of_int \<lfloor>y\<rfloor> \<le> y - of_int \<lfloor>y\<rfloor>" using assms by simp
  then show ?thesis
    by (auto simp: roundHalfEven_def Let_def eq)
qed

lemma roundHalfEven_nonneg: "0 \<le> y \<Longrightarrow> 0 \<le> roundHalfEven y"
  using roundHalfEven_mono[of 0 y] roundHalfEven_of_int[of 0] by simp

lemma scaleDown_spec:
  "scaleDown x ex = (x', ex') \<Longrightarrow>
   x' * 2 powi ex' = x * 2 powi ex \<and> ex \<le> ex' \<and> x' < 9007199254740992"
proof (induction x ex rule: scaleDown.induct)
  case (1 x ex)
  show ?case
  proof (cases "9007199254740992 \<le> x")
    case True
    then have "scaleDown (x / 2) (ex + 1) = (x', ex')"
      using 1(2) by (subst (asm) scaleDown.simps) simp
    from 1(1)[OF True this] show ?thesis
      by (simp add: power_int_add_1)
  next
    case False
    then have "x' = x" "ex' = ex"
      using 1(2) by (subst (asm) scaleDown.simps, simp)+
    with False show ?thesis by simp
  qed
qed

lemma scaleUp_spec:
  "scaleUp x ex = (x', ex') \<Longrightarrow> - 1074 \<le> ex \<Longrightarrow> x < 9007199254740992 \<Longrightarrow>
   x' * 2 powi ex' = x * 2 powi ex \<and> - 1074 \<le> ex' \<and> x' < 9007199254740992
   \<and> (ex' = - 1074 \<or> 4503599627370496 \<le> x')"
proof (induction x ex rule: scaleUp.induct)
  case (1 x ex)
  show ?case
  proof (cases "x < 4503599627370496 \<and> - 1074 < ex")
    case True
    then have "scaleUp (x * 2) (ex - 1) = (x', ex')"
      using 1(2) by (subst (asm) scaleUp.simps) simp
    from 1(1)[OF True this] True show ?thesis
      by (simp add: power_int_diff)
  next
    case False
    then have "x' = x" "ex' = ex"
      using 1(2) by (subst (asm) scaleUp.simps, simp)+
    with False 1(3,4) show ?thesis by auto
  qed
qed

lemma normalise_spec:
  assumes "normalise a = (x, ex)"
  shows "x * 2 powi ex = a \<and> - 1074 \<le> ex \<and> x < 9007199254740992
   \<and> (ex = - 1074 \<or> 4503599627370496 \<le> x)"
proof -
  obtain x1 e1 where d: "scaleDown a 0 = (x1, e1)"
    by (cases "scaleDown a 0")
  from scaleDown_spec[OF d] have 1: "x1 * 2 powi e1 = a" "0 \<le> e1" "x1 < 9007199254740992"
    by simp_all
  from assms d have u: "scaleUp x1 e1 = (x, ex)"
    by (simp add: normalise_def)
  from scaleUp_spec[OF u] 1 show ?thesis by simp
qed

text \<open>The significand, the exponent and the value before the overflow test.\<close>

lemma roundDouble_pos:
  assumes "0 < a" "normalise a = (x, ex)"
  shows "roundDouble a =
           (if 971 < ex \<or> (ex = 971 \<and> roundHalfEven x = 9007199254740992) then PosInf
            else Fin (of_int (roundHalfEven x) * 2 powi ex))"
  using assms by (simp add: roundDouble_def Let_def)

lemma normalise_pos:
  assumes "0 < a" "normalise a = (x, ex)"
  shows "0 < x"
proof -
  from normalise_spec[OF assms(2)] have "x * 2 powi ex = a" by simp
  moreover have "(0::rat) < 2 powi ex" by simp
  ultimately show ?thesis
    using assms(1) by (metis zero_less_mult_pos2)
qed

lemma roundDouble_nonneg:
  assumes "0 \<le> a"
  shows "jle (Fin 0) (roundDouble a)"
proof (cases "a = 0")
  case True
  then show ?thesis by (simp add: roundDouble_def)
next
  case False
  with assms have pos: "0 < a" by simp
  obtain x ex where n: "normalise a = (x, ex)"
    by (cases "normalise a")
  have "0 \<le> roundHalfEven x"
    using normalise_pos[OF pos n] by (intro roundHalfEven_nonneg) simp
  then have "(0::rat) \<le> of_int (roundHalfEven x) * 2 powi ex"
    by simp
  then show ?thesis
    by (simp add: roundDouble_pos[OF pos n])
qed

lemma roundDouble_of_nat:
  assumes "n < 9007199254740992"
  shows "roundDouble (of_nat n) = Fin (of_nat n)"
proof (cases "n = 0")
  case True
  then show ?thesis by (simp add: roundDouble_def)
next
  case False
  then have pos: "(0::rat) < of_nat n" by simp
  obtain x ex where n: "normalise (of_nat n) = (x, ex)"
    by (cases "normalise (of_nat n :: rat)")
  from normalise_spec[OF n] have v: "x * 2 powi ex = of_nat n"
    and big: "ex = - 1074 \<or> 4503599627370496 \<le> x" by simp_all
  have le0: "ex \<le> 0"
  proof (rule ccontr)
    assume "\<not> ex \<le> 0"
    then have e1: "1 \<le> ex" by simp
    with big have x: "4503599627370496 \<le> x" by simp
    have "(2::rat) powi 1 \<le> 2 powi ex"
      using e1 by (intro power_int_increasing) simp_all
    then have "(2::rat) \<le> 2 powi ex" by simp
    with x have "4503599627370496 * 2 \<le> x * 2 powi ex"
      by (intro mult_mono) simp_all
    with v have "(9007199254740992::rat) \<le> of_nat n" by simp
    then have "(9007199254740992::nat) \<le> n"
      by (metis of_nat_le_iff of_nat_numeral)
    with assms show False by simp
  qed
  define k where "k = nat (- ex)"
  have ex: "ex = - int k" using le0 by (simp add: k_def)
  have "x = of_nat n * 2 ^ k"
    using v by (simp add: ex power_int_minus field_simps)
  then have xi: "x = of_int (int n * 2 ^ k)" by simp
  have m: "roundHalfEven x = int n * 2 ^ k"
    unfolding xi by (rule roundHalfEven_of_int)
  have "of_int (roundHalfEven x) * 2 powi ex = (of_nat n :: rat)"
    unfolding m by (simp add: ex power_int_minus field_simps)
  then show ?thesis
    using le0 by (simp add: roundDouble_pos[OF pos n])
qed

lemma roundDouble_mono:
  assumes "0 \<le> a" "a \<le> b"
  shows "jle (roundDouble a) (roundDouble b)"
proof (cases "a = 0")
  case True
  then have "roundDouble a = Fin 0" by (simp add: roundDouble_def)
  then show ?thesis
    using roundDouble_nonneg[of b] assms by simp
next
  case False
  with assms have pa: "0 < a" and pb: "0 < b" by simp_all
  obtain xa ea where na: "normalise a = (xa, ea)" by (cases "normalise a")
  obtain xb eb where nb: "normalise b = (xb, eb)" by (cases "normalise b")
  from normalise_spec[OF na] have va: "xa * 2 powi ea = a" and la: "- 1074 \<le> ea"
    and ua: "xa < 9007199254740992" and ba: "ea = - 1074 \<or> 4503599627370496 \<le> xa"
    by simp_all
  from normalise_spec[OF nb] have vb: "xb * 2 powi eb = b" and lb: "- 1074 \<le> eb"
    and ub: "xb < 9007199254740992" and bb: "eb = - 1074 \<or> 4503599627370496 \<le> xb"
    by simp_all
  let ?ma = "roundHalfEven xa" and ?mb = "roundHalfEven xb"
  have ma_le: "?ma \<le> 9007199254740992"
    using roundHalfEven_mono[of xa 9007199254740992] ua
      roundHalfEven_of_int[of 9007199254740992] by simp
  have mb_le: "?mb \<le> 9007199254740992"
    using roundHalfEven_mono[of xb 9007199254740992] ub
      roundHalfEven_of_int[of 9007199254740992] by simp
  have ma_ge: "0 \<le> ?ma"
    using normalise_pos[OF pa na] by (intro roundHalfEven_nonneg) simp
  have e: "ea \<le> eb"
  proof (rule ccontr)
    assume "\<not> ea \<le> eb"
    then have lt: "eb + 1 \<le> ea" by simp
    with lb ba have x: "4503599627370496 \<le> xa" by simp
    have "(2::rat) powi (eb + 1) \<le> 2 powi ea"
      using lt by (intro power_int_increasing) simp_all
    then have "2 * (2::rat) powi eb \<le> 2 powi ea"
      by (simp add: power_int_add_1)
    with x have "4503599627370496 * (2 * 2 powi eb) \<le> xa * 2 powi ea"
      by (intro mult_mono) simp_all
    then have "9007199254740992 * 2 powi eb \<le> a"
      using va by simp
    moreover have "xb * 2 powi eb < 9007199254740992 * 2 powi eb"
      using ub by (intro mult_strict_right_mono) simp_all
    ultimately have "b < a" using vb by simp
    with assms show False by simp
  qed
  have v: "of_int ?ma * (2::rat) powi ea \<le> of_int ?mb * 2 powi eb"
  proof (cases "ea = eb")
    case True
    have "xa * 2 powi eb \<le> xb * 2 powi eb"
      using va vb assms True by simp
    then have "xa \<le> xb"
      by (simp add: mult_le_cancel_right)
    then have "?ma \<le> ?mb" by (rule roundHalfEven_mono)
    then show ?thesis
      using True by (simp add: mult_right_mono)
  next
    case False
    with e have lt: "ea + 1 \<le> eb" by simp
    with la bb have x: "4503599627370496 \<le> xb" by simp
    have mb_ge: "4503599627370496 \<le> ?mb"
      using roundHalfEven_mono[OF x] roundHalfEven_of_int[of 4503599627370496] by simp
    have "of_int ?ma * (2::rat) powi ea \<le> 9007199254740992 * 2 powi ea"
      using ma_le by (intro mult_right_mono) simp_all
    also have "\<dots> = 4503599627370496 * 2 powi (ea + 1)"
      by (simp add: power_int_add_1)
    also have "\<dots> \<le> 4503599627370496 * 2 powi eb"
      using lt by (intro mult_left_mono power_int_increasing) simp_all
    also have "\<dots> \<le> of_int ?mb * 2 powi eb"
      using mb_ge by (intro mult_right_mono) simp_all
    finally show ?thesis .
  qed
  have ov: "971 < eb \<or> (eb = 971 \<and> ?mb = 9007199254740992)"
    if o: "971 < ea \<or> (ea = 971 \<and> ?ma = 9007199254740992)"
  proof (cases "971 < eb")
    case True
    then show ?thesis by simp
  next
    case False
    with e o have eq: "ea = 971" "eb = 971" and m: "?ma = 9007199254740992" by auto
    have "xa * 2 powi eb \<le> xb * 2 powi eb"
      using va vb assms eq by simp
    then have "xa \<le> xb"
      by (simp add: mult_le_cancel_right)
    then have "?ma \<le> ?mb" by (rule roundHalfEven_mono)
    with m mb_le eq show ?thesis by simp
  qed
  show ?thesis
    unfolding roundDouble_pos[OF pa na] roundDouble_pos[OF pb nb]
    using v ov by auto
qed

text \<open>Sums and products of natural numbers below \<open>2 ^ 53\<close> are exact.\<close>

lemma jadd_of_nat:
  "a + b < 9007199254740992 \<Longrightarrow> jadd (Fin (of_nat a)) (Fin (of_nat b)) = Fin (of_nat (a + b))"
  using roundDouble_of_nat[of "a + b"] by simp

lemma jmul_of_nat:
  "a * b < 9007199254740992 \<Longrightarrow> jmul (Fin (of_nat a)) (Fin (of_nat b)) = Fin (of_nat (a * b))"
  using roundDouble_of_nat[of "a * b"] by simp

lemma whole_seconds_exact:
  assumes "h * 3600 + m * 60 + s < 9007199254740992"
  shows "jadd (jadd (jmul (Fin (of_nat h)) (Fin 3600)) (jmul (Fin (of_nat m)) (Fin 60)))
              (Fin (of_nat s)) = Fin (of_nat (h * 3600 + m * 60 + s))"
proof -
  have 1: "jmul (Fin (of_nat h)) (Fin 3600) = Fin (of_nat (h * 3600))"
    using jmul_of_nat[of h 3600] assms by simp
  have 2: "jmul (Fin (of_nat m)) (Fin 60) = Fin (of_nat (m * 60))"
    using jmul_of_nat[of m 60] assms by simp
  have 3: "jadd (Fin (of_nat (h * 3600))) (Fin (of_nat (m * 60))) = Fin (of_nat (h * 3600 + m * 60))"
    using assms by (intro jadd_of_nat) simp
  have 4: "jadd (Fin (of_nat (h * 3600 + m * 60))) (Fin (of_nat s))
             = Fin (of_nat (h * 3600 + m * 60 + s))"
    using assms by (intro jadd_of_nat) simp
  show ?thesis
    unfolding 1 2 3 4 ..
qed

text \<open>Rules that evaluate the model on literals.\<close>

lemma floor_rat_numeral: "\<lfloor>numeral a / numeral b :: rat\<rfloor> = numeral a div numeral b"
  using floor_divide_of_int_eq[of "numeral a" "numeral b", where ?'a = rat] by simp

lemmas eval_num = roundDouble_def normalise_def scaleDown.simps scaleUp.simps roundHalfEven_def
  floor_rat_numeral

lemmas eval_str = isWhiteSpace_def trimStart_def trim_def nth_opt_def toString_def
  digitValue_def isRadixDigit_def digitNat_def digitsValue_def exponentPart_def scale10_def

lemmas eval_ts = parseTimestamp_def parseInt_def parseFloat_def Let_def

lemmas eval_vtt = parseVTT_def parseCues.simps skipHeader.simps readText.simps

lemmas eval_cues = encodedCues_def isTiming_def nonBlank_def cueOf_def fieldTime_def
  timingField_def

section \<open>Properties of the timestamp parser\<close>

lemma isDigit_radix: "isDigit c \<Longrightarrow> isRadixDigit 10 c"
  by (auto simp: isDigit_def isRadixDigit_def digitValue_def)

lemma isDigit_not_ws: "isDigit c \<Longrightarrow> \<not> isWhiteSpace c"
  by (auto simp: isDigit_def isWhiteSpace_def)

lemma isDigit_neq:
  "isDigit c \<Longrightarrow> c \<noteq> CHR '':'' \<and> c \<noteq> CHR ''.'' \<and> c \<noteq> CHR ''+'' \<and> c \<noteq> CHR ''-''
     \<and> c \<noteq> CHR ''x'' \<and> c \<noteq> CHR ''X'' \<and> c \<noteq> CHR ''I''"
  by (auto simp: isDigit_def)

lemma not_radix_misc:
  "\<not> isRadixDigit 10 CHR ''.''" "\<not> isRadixDigit 10 CHR '':''"
  by (simp_all add: isRadixDigit_def digitValue_def)

lemma split_no_sep: "c \<notin> set s \<Longrightarrow> split s [c] = [s]"
  by (induction s) auto

lemma split_sep: "c \<notin> set a \<Longrightarrow> split (a @ c # b) [c] = a # split b [c]"
  by (induction a) auto

lemma digitsValue_Cons0: "digitsValue 10 (CHR ''0'' # f) = digitsValue 10 f"
  by (simp add: digitsValue_def digitNat_def digitValue_def)

lemma parseInt_digits:
  assumes "isDigits ds"
  shows "parseInt ds = fieldNumber ds"
proof -
  from assms obtain c cs where ds: "ds = c # cs" and c: "isDigit c" and cs: "list_all isDigit cs"
    by (cases ds) (auto simp: isDigits_def)
  have ts: "trimStart ds = ds"
    using c by (simp add: trimStart_def ds isDigit_not_ws)
  have nosign: "\<not> startsWith ds ''-''" "\<not> startsWith ds ''+''"
    using c isDigit_neq[of c] by (auto simp: ds)
  have nohex: "\<not> startsWith ds ''0x''" "\<not> startsWith ds ''0X''"
    using cs isDigit_neq by (cases cs; auto simp: ds)+
  have tw: "takeWhile (isRadixDigit 10) ds = ds"
    using c cs by (auto simp: ds takeWhile_eq_all_conv list_all_iff isDigit_radix)
  have ne: "ds \<noteq> []" by (simp add: ds)
  show ?thesis
    by (simp add: parseInt_def fieldNumber_def Let_def ts nosign nohex tw ne)
qed

lemma parseFloat_digits:
  assumes "isDigits ds"
  shows "parseFloat ds = fieldNumber ds"
proof -
  from assms obtain c cs where ds: "ds = c # cs" and c: "isDigit c" and cs: "list_all isDigit cs"
    by (cases ds) (auto simp: isDigits_def)
  have ts: "trimStart ds = ds"
    using c by (simp add: trimStart_def ds isDigit_not_ws)
  have nosign: "\<not> startsWith ds ''-''" "\<not> startsWith ds ''+''" "\<not> startsWith ds ''Infinity''"
    using c isDigit_neq[of c] by (auto simp: ds)
  have tw: "takeWhile (isRadixDigit 10) ds = ds" "dropWhile (isRadixDigit 10) ds = []"
    using c cs by (auto simp: ds takeWhile_eq_all_conv list_all_iff isDigit_radix)
  have ne: "ds \<noteq> []" by (simp add: ds)
  show ?thesis
    by (simp add: parseFloat_def fieldNumber_def Let_def ts nosign tw ne exponentPart_def
          scale10_def)
qed

lemma parseFloat_fraction:
  assumes "isDigits f"
  shows "parseFloat (''0.'' @ f) = fracNumber f"
proof -
  have all: "\<forall>c\<in>set f. isRadixDigit 10 c"
    using assms by (auto simp: isDigits_def list_all_iff isDigit_radix)
  have tw: "takeWhile (isRadixDigit 10) f = f" "dropWhile (isRadixDigit 10) f = []"
    using all by (auto simp: takeWhile_eq_all_conv)
  have d0: "isRadixDigit 10 CHR ''0''" "\<not> isWhiteSpace CHR ''0''"
    by (simp_all add: isRadixDigit_def digitValue_def isWhiteSpace_def)
  have ne: "f \<noteq> []" using assms by (simp add: isDigits_def)
  show ?thesis
    by (simp add: parseFloat_def fracNumber_def Let_def trimStart_def tw d0 ne exponentPart_def
          scale10_def not_radix_misc digitsValue_Cons0)
qed

lemma digits_no_colon: "isDigits s \<Longrightarrow> CHR '':'' \<notin> set s"
  using isDigit_neq by (auto simp: isDigits_def list_all_iff)

lemma digits_no_dot: "isDigits s \<Longrightarrow> CHR ''.'' \<notin> set s"
  using isDigit_neq by (auto simp: isDigits_def list_all_iff)

lemma frac_no_colon: "wfFrac F \<Longrightarrow> CHR '':'' \<notin> set (fracText F)"
  using digits_no_colon by (auto simp: wfFrac_def fracText_def split: option.splits)

lemma split_seconds:
  assumes "isDigits S" "wfFrac F"
  shows "split (S @ fracText F) ''.'' = (case F of None \<Rightarrow> [S] | Some f \<Rightarrow> [S, f])"
  using assms digits_no_dot[of S] 
  by (auto simp: fracText_def wfFrac_def split_no_sep split_sep digits_no_dot split: option.splits)

lemma split_parts3:
  assumes "isDigits H" "isDigits M" "isDigits S" "wfFrac F"
  shows "split (H @ '':'' @ M @ '':'' @ S @ fracText F) '':'' = [H, M, S @ fracText F]"
  using assms by (simp add: split_sep split_no_sep digits_no_colon frac_no_colon)

lemma split_parts2:
  assumes "isDigits M" "isDigits S" "wfFrac F"
  shows "split (M @ '':'' @ S @ fracText F) '':'' = [M, S @ fracText F]"
  using assms by (simp add: split_sep split_no_sep digits_no_colon frac_no_colon)

lemma split_parts1:
  assumes "isDigits S" "wfFrac F"
  shows "split (S @ fracText F) '':'' = [S @ fracText F]"
  using assms by (simp add: split_sep split_no_sep digits_no_colon frac_no_colon)

lemma parseFloat_fraction_str:
  "isDigits f \<Longrightarrow> parseFloat (CHR ''0'' # CHR ''.'' # f) = fracNumber f"
  using parseFloat_fraction[of f] by simp

lemmas ts_simps = nth_opt_def toString_def parseInt_digits parseFloat_digits
  parseFloat_fraction_str addFraction_def wfFrac_def Let_def split_seconds

lemma parseTimestamp_hms:
  assumes "isDigits H" "isDigits M" "isDigits S" "wfFrac F"
  shows "parseTimestamp (H @ '':'' @ M @ '':'' @ S @ fracText F) =
    Inr (addFraction (jadd (jadd (jmul (fieldNumber H) (Fin 3600)) (jmul (fieldNumber M) (Fin 60)))
                           (fieldNumber S)) F)"
  unfolding parseTimestamp_def split_parts3[OF assms]
  using assms by (cases F) (simp_all add: ts_simps)

lemma parseTimestamp_ms:
  assumes "isDigits M" "isDigits S" "wfFrac F"
  shows "parseTimestamp (M @ '':'' @ S @ fracText F) =
    Inr (addFraction (jadd (jmul (fieldNumber M) (Fin 60)) (fieldNumber S)) F)"
  unfolding parseTimestamp_def split_parts2[OF assms]
  using assms by (cases F) (simp_all add: ts_simps)

lemma parseTimestamp_s:
  assumes "isDigits S" "wfFrac F"
  shows "parseTimestamp (S @ fracText F) = Inr (addFraction (fieldNumber S) F)"
  unfolding parseTimestamp_def split_parts1[OF assms]
  using assms by (cases F) (simp_all add: ts_simps)

lemma fieldNumber_exact:
  "digitsValue 10 ds < 9007199254740992 \<Longrightarrow> fieldNumber ds = Fin (of_nat (digitsValue 10 ds))"
  by (simp add: fieldNumber_def roundDouble_of_nat)

lemma whole_seconds_fields:
  assumes "digitsValue 10 H * 3600 + digitsValue 10 M * 60 + digitsValue 10 S < 9007199254740992"
  shows "jadd (jadd (jmul (fieldNumber H) (Fin 3600)) (jmul (fieldNumber M) (Fin 60)))
              (fieldNumber S)
           = Fin (of_nat (digitsValue 10 H * 3600 + digitsValue 10 M * 60 + digitsValue 10 S))"
    and "jadd (jmul (fieldNumber M) (Fin 60)) (fieldNumber S)
           = Fin (of_nat (digitsValue 10 M * 60 + digitsValue 10 S))"
    and "fieldNumber S = Fin (of_nat (digitsValue 10 S))"
proof -
  have h: "fieldNumber H = Fin (of_nat (digitsValue 10 H))"
    and m: "fieldNumber M = Fin (of_nat (digitsValue 10 M))"
    and s: "fieldNumber S = Fin (of_nat (digitsValue 10 S))"
    using assms by (simp_all add: fieldNumber_exact)
  show "jadd (jadd (jmul (fieldNumber H) (Fin 3600)) (jmul (fieldNumber M) (Fin 60)))
              (fieldNumber S)
           = Fin (of_nat (digitsValue 10 H * 3600 + digitsValue 10 M * 60 + digitsValue 10 S))"
    unfolding h m s using assms by (rule whole_seconds_exact)
  have "0 * 3600 + digitsValue 10 M * 60 + digitsValue 10 S < 9007199254740992"
    using assms by simp
  from whole_seconds_exact[OF this]
  show "jadd (jmul (fieldNumber M) (Fin 60)) (fieldNumber S)
           = Fin (of_nat (digitsValue 10 M * 60 + digitsValue 10 S))"
    unfolding m s using roundDouble_of_nat[of "digitsValue 10 M * 60"] assms
    by (simp add: roundDouble_def)
  show "fieldNumber S = Fin (of_nat (digitsValue 10 S))"
    by (rule s)
qed



section \<open>Properties of the resolution\<close>

lemma scanCues_find: "scanCues cs t i = List.find (\<lambda>c. covers c t) (drop i cs)"
proof (induction cs t i rule: scanCues.induct)
  case (1 cs t i)
  show ?case
  proof (cases "i < length cs")
    case True
    then have d: "drop i cs = cs ! i # drop (i + 1) cs"
      by (simp add: Cons_nth_drop_Suc)
    have cov: "covers (cs ! i) t = (jge t (startTime (cs ! i)) \<and> jle t (endTime (cs ! i)))"
      by (auto simp: covers_def jge_def)
    show ?thesis
    proof (cases "covers (cs ! i) t")
      case c: True
      have "scanCues cs t i = Some (cs ! i)"
        using True c by (subst scanCues.simps) (simp add: cov)
      then show ?thesis
        using c by (simp add: d)
    next
      case c: False
      have nc: "\<not> (jge t (startTime (cs ! i)) \<and> jle t (endTime (cs ! i)))"
        using c cov by simp
      have "scanCues cs t i = scanCues cs t (i + 1)"
        by (subst scanCues.simps) (simp only: True nc if_True if_False)
      also have "\<dots> = List.find (\<lambda>c. covers c t) (drop (i + 1) cs)"
        using 1 True nc by blast
      finally show ?thesis
        using c by (simp add: d)
    qed
  next
    case False
    then show ?thesis
      by (subst scanCues.simps) simp
  qed
qed

lemma scanCues_first: "firstCovering cs t (scanCues cs t 0)"
proof (cases "scanCues cs t 0")
  case None
  then have "List.find (\<lambda>c. covers c t) cs = None"
    by (simp add: scanCues_find)
  then have "\<forall>i < length cs. \<not> covers (cs ! i) t"
    by (auto simp: find_None_iff in_set_conv_nth)
  then show ?thesis
    by (simp add: None firstCovering_def)
next
  case (Some c)
  then have "List.find (\<lambda>c. covers c t) cs = Some c"
    by (simp add: scanCues_find)
  then have "\<exists>i < length cs. c = cs ! i \<and> covers c t \<and> (\<forall>j < i. \<not> covers (cs ! j) t)"
    by (auto simp: find_Some_iff)
  then show ?thesis
    by (simp add: Some firstCovering_def)
qed

text \<open>
  Claim C3. Resolving the active cue scans the track in stored order and returns the
  first cue whose interval holds the current time, both ends included: it finds
  nothing exactly when no cue of the track covers the time, and a cue it returns
  covers the time while no cue stored before it does, so of several overlapping cues
  the earliest stored wins. The track scanned is the list of manually parsed cues
  when the native track has no cue, and the native cue list when it has one; the cue
  found is the one \<^verbatim>\<open>updateSubtitleByTime\<close> displays. With \<open>A\<close> on \<open>[0, 5]\<close> stored
  before \<open>B\<close> on \<open>[2, 7]\<close>, resolving at time 3 returns \<open>A\<close>.
\<close>

theorem first_match_wins:
  "((track this = None
       \<or> (\<exists>tr. track this = Some tr \<and> (cues tr = None \<or> cues tr = Some []))) \<longrightarrow>
      firstCovering (manualCues this) (currentTime (player this)) (currentCue this))
   \<and> (\<forall>tr cs. track this = Some tr \<and> cues tr = Some cs \<and> cs \<noteq> [] \<longrightarrow>
          firstCovering cs (currentTime (player this)) (currentCue this))
   \<and> (\<forall>c. currentCue this = Some c \<longrightarrow>
          subtitleDisplay (updateSubtitleByTime this) =
            \<lparr>textContent = cueText c,
             classList = classAdd ''active'' (classList (subtitleDisplay this))\<rparr>)
   \<and> currentCue (initialPlayer\<lparr>player := \<lparr>currentTime = Fin 3, paused = False\<rparr>,
          manualCues := [\<lparr>startTime = Fin 0, endTime = Fin 5, cueText = ''A''\<rparr>,
                         \<lparr>startTime = Fin 2, endTime = Fin 7, cueText = ''B''\<rparr>]\<rparr>)
        = Some \<lparr>startTime = Fin 0, endTime = Fin 5, cueText = ''A''\<rparr>"
proof -
  let ?t = "currentTime (player this)"
  have m: "firstCovering (manualCues this) ?t (currentCue this)"
    if "track this = None
          \<or> (\<exists>tr. track this = Some tr \<and> (cues tr = None \<or> cues tr = Some []))"
  proof -
    have "currentCue this = scanCues (manualCues this) ?t 0"
    proof (cases "manualCues this = []")
      case True
      have "scanCues [] ?t 0 = None"
        by (subst scanCues.simps) simp
      with True that show ?thesis
        by (auto simp: currentCue_def)
    next
      case False
      with that show ?thesis
        by (auto simp: currentCue_def)
    qed
    then show ?thesis
      by (simp add: scanCues_first)
  qed
  have n: "firstCovering cs ?t (currentCue this)"
    if "track this = Some tr \<and> cues tr = Some cs \<and> cs \<noteq> []" for tr cs
  proof -
    have "currentCue this = scanCues cs ?t 0"
      using that by (simp add: currentCue_def)
    then show ?thesis
      by (simp add: scanCues_first)
  qed
  have d: "subtitleDisplay (updateSubtitleByTime this) =
            \<lparr>textContent = cueText c,
             classList = classAdd ''active'' (classList (subtitleDisplay this))\<rparr>"
    if "currentCue this = Some c" for c
    using that by (simp add: updateSubtitleByTime_def)
  have e: "currentCue (initialPlayer\<lparr>player := \<lparr>currentTime = Fin 3, paused = False\<rparr>,
          manualCues := [\<lparr>startTime = Fin 0, endTime = Fin 5, cueText = ''A''\<rparr>,
                         \<lparr>startTime = Fin 2, endTime = Fin 7, cueText = ''B''\<rparr>]\<rparr>)
        = Some \<lparr>startTime = Fin 0, endTime = Fin 5, cueText = ''A''\<rparr>"
    by (simp add: currentCue_def initialPlayer_def scanCues_find covers_def)
  from m n d e show ?thesis by blast
qed

theorem first_match_wins_witness:
  "currentCue (initialPlayer\<lparr>player := \<lparr>currentTime = Fin 5, paused = False\<rparr>,
       manualCues := [\<lparr>startTime = Fin 1, endTime = Fin 3, cueText = ''one''\<rparr>,
                      \<lparr>startTime = Fin 2, endTime = Fin 8, cueText = ''two''\<rparr>,
                      \<lparr>startTime = Fin 4, endTime = Fin 9, cueText = ''three''\<rparr>]\<rparr>)
     = Some \<lparr>startTime = Fin 2, endTime = Fin 8, cueText = ''two''\<rparr>
   \<and> subtitleDisplay (updateSubtitleByTime
        (initialPlayer\<lparr>player := \<lparr>currentTime = Fin 5, paused = False\<rparr>,
           manualCues := [\<lparr>startTime = Fin 1, endTime = Fin 3, cueText = ''one''\<rparr>,
                          \<lparr>startTime = Fin 2, endTime = Fin 8, cueText = ''two''\<rparr>,
                          \<lparr>startTime = Fin 4, endTime = Fin 9, cueText = ''three''\<rparr>]\<rparr>))
     = \<lparr>textContent = ''two'', classList = [''active'']\<rparr>"
proof -
  let ?cs = "[\<lparr>startTime = Fin 1, endTime = Fin 3, cueText = ''one''\<rparr>,
              \<lparr>startTime = Fin 2, endTime = Fin 8, cueText = ''two''\<rparr>,
              \<lparr>startTime = Fin 4, endTime = Fin 9, cueText = ''three''\<rparr>]"
  let ?p = "initialPlayer\<lparr>player := \<lparr>currentTime = Fin 5, paused = False\<rparr>,
              manualCues := ?cs\<rparr>"
  note t = first_match_wins[of ?p]
  have "track ?p = None"
    by (simp add: initialPlayer_def)
  with t have "firstCovering (manualCues ?p) (currentTime (player ?p)) (currentCue ?p)"
    by blast
  then have f: "firstCovering ?cs (Fin 5) (currentCue ?p)"
    by simp
  have c: "currentCue ?p = Some \<lparr>startTime = Fin 2, endTime = Fin 8, cueText = ''two''\<rparr>"
  proof (cases "currentCue ?p")
    case None
    with f have "\<forall>i < length ?cs. \<not> covers (?cs ! i) (Fin 5)"
      by (simp add: firstCovering_def)
    then have "1 < length ?cs \<longrightarrow> \<not> covers (?cs ! 1) (Fin 5)"
      by (rule spec)
    then show ?thesis
      by (simp add: covers_def)
  next
    case (Some c)
    with f have "\<exists>i < length ?cs. c = ?cs ! i \<and> covers c (Fin 5)
                   \<and> (\<forall>j < i. \<not> covers (?cs ! j) (Fin 5))"
      by (simp add: firstCovering_def)
    then obtain i where i: "i < length ?cs" "c = ?cs ! i" "covers c (Fin 5)"
      "\<forall>j < i. \<not> covers (?cs ! j) (Fin 5)"
      by blast
    have "i = 1"
    proof (rule ccontr)
      assume "i \<noteq> 1"
      with i(1) have "i = 0 \<or> i = 2" by auto
      then show False
      proof
        assume "i = 0"
        with i(2,3) show False by (simp add: covers_def)
      next
        assume "i = 2"
        from i(4) have "1 < i \<longrightarrow> \<not> covers (?cs ! 1) (Fin 5)"
          by (rule spec)
        with \<open>i = 2\<close> show False by (simp add: covers_def)
      qed
    qed
    with i(2) Some show ?thesis by simp
  qed
  from t c have "subtitleDisplay (updateSubtitleByTime ?p) =
            \<lparr>textContent = cueText \<lparr>startTime = Fin 2, endTime = Fin 8, cueText = ''two''\<rparr>,
             classList = classAdd ''active'' (classList (subtitleDisplay ?p))\<rparr>"
    by blast
  then have "subtitleDisplay (updateSubtitleByTime ?p)
               = \<lparr>textContent = ''two'', classList = [''active'']\<rparr>"
    by (simp add: initialPlayer_def classAdd_def)
  with c show ?thesis by simp
qed

text \<open>
  Claim C4, amended. A time-update observation reaches \<^verbatim>\<open>updateSubtitleByTime\<close> only
  when the native track has at least one cue. Then, when no cue of the native track
  covers the current time, the display surface gets the ellipsis marker and loses
  the class \<^verbatim>\<open>active\<close> if the time is above 0 and playback is not paused, and
  otherwise the whole state, display surface included, is left as it was. When the
  native track has no cue, the observation leaves the state as it was, whatever the
  time, the paused flag and the parsed cues. (\<^verbatim>\<open>updateSubtitleByTime\<close> itself, once
  called with no cue resolved, writes the ellipsis under the same condition.)
\<close>

theorem no_match_display:
  "(\<forall>tr cs. track this = Some tr \<and> cues tr = Some cs \<and> cs \<noteq> []
       \<and> (\<forall>i < length cs. \<not> covers (cs ! i) (currentTime (player this))) \<longrightarrow>
       (jgt (currentTime (player this)) (Fin 0) \<and> \<not> paused (player this) \<longrightarrow>
          onTimeupdate this =
            this\<lparr>subtitleDisplay :=
                   \<lparr>textContent = ''...'',
                    classList = classRemove ''active'' (classList (subtitleDisplay this))\<rparr>\<rparr>
          \<and> ''active'' \<notin> set (classList (subtitleDisplay (onTimeupdate this))))
       \<and> (\<not> (jgt (currentTime (player this)) (Fin 0) \<and> \<not> paused (player this)) \<longrightarrow>
            onTimeupdate this = this))
   \<and> ((track this = None
         \<or> (\<exists>tr. track this = Some tr \<and> (cues tr = None \<or> cues tr = Some []))) \<longrightarrow>
        onTimeupdate this = this)
   \<and> (currentCue this = None \<longrightarrow>
        updateSubtitleByTime this =
          (if jgt (currentTime (player this)) (Fin 0) \<and> \<not> paused (player this)
           then this\<lparr>subtitleDisplay :=
                  \<lparr>textContent = ''...'',
                   classList = classRemove ''active'' (classList (subtitleDisplay this))\<rparr>\<rparr>
           else this))"
proof -
  let ?t = "currentTime (player this)"
  let ?e = "this\<lparr>subtitleDisplay :=
                   \<lparr>textContent = ''...'',
                    classList = classRemove ''active'' (classList (subtitleDisplay this))\<rparr>\<rparr>"
  have u: "updateSubtitleByTime this = (if jgt ?t (Fin 0) \<and> \<not> paused (player this) then ?e else this)"
    if "currentCue this = None"
    using that by (simp add: updateSubtitleByTime_def)
  have a: "(jgt ?t (Fin 0) \<and> \<not> paused (player this) \<longrightarrow>
              onTimeupdate this = ?e
              \<and> ''active'' \<notin> set (classList (subtitleDisplay (onTimeupdate this))))
         \<and> (\<not> (jgt ?t (Fin 0) \<and> \<not> paused (player this)) \<longrightarrow> onTimeupdate this = this)"
    if h: "track this = Some tr \<and> cues tr = Some cs \<and> cs \<noteq> []
       \<and> (\<forall>i < length cs. \<not> covers (cs ! i) ?t)" for tr cs
  proof -
    have o: "onTimeupdate this = updateSubtitleByTime this"
      using h by (simp add: onTimeupdate_def)
    have "currentCue this = scanCues cs ?t 0"
      using h by (simp add: currentCue_def)
    also have "\<dots> = None"
      using h by (auto simp: scanCues_find find_None_iff in_set_conv_nth)
    finally have "currentCue this = None" .
    from u[OF this] o show ?thesis
      by (simp add: classRemove_def)
  qed
  have b: "onTimeupdate this = this"
    if "track this = None
         \<or> (\<exists>tr. track this = Some tr \<and> (cues tr = None \<or> cues tr = Some []))"
    using that by (auto simp: onTimeupdate_def)
  from a b u show ?thesis by blast
qed

theorem no_match_display_witness:
  "subtitleDisplay (onTimeupdate
      (initialPlayer\<lparr>player := \<lparr>currentTime = Fin 4, paused = False\<rparr>,
         subtitleDisplay := \<lparr>textContent = ''Hello'', classList = [''active'']\<rparr>,
         track := Some \<lparr>cues = Some [\<lparr>startTime = Fin 1, endTime = Fin 3, cueText = ''a''\<rparr>,
                                       \<lparr>startTime = Fin 5, endTime = Fin 8, cueText = ''b''\<rparr>]\<rparr>\<rparr>))
     = \<lparr>textContent = ''...'', classList = []\<rparr>
   \<and> onTimeupdate
      (initialPlayer\<lparr>subtitleDisplay := \<lparr>textContent = ''Hello'', classList = [''active'']\<rparr>,
         track := Some \<lparr>cues = Some [\<lparr>startTime = Fin 1, endTime = Fin 3, cueText = ''a''\<rparr>,
                                       \<lparr>startTime = Fin 5, endTime = Fin 8, cueText = ''b''\<rparr>]\<rparr>\<rparr>)
     = initialPlayer\<lparr>subtitleDisplay := \<lparr>textContent = ''Hello'', classList = [''active'']\<rparr>,
         track := Some \<lparr>cues = Some [\<lparr>startTime = Fin 1, endTime = Fin 3, cueText = ''a''\<rparr>,
                                       \<lparr>startTime = Fin 5, endTime = Fin 8, cueText = ''b''\<rparr>]\<rparr>\<rparr>"
proof -
  let ?cs = "[\<lparr>startTime = Fin 1, endTime = Fin 3, cueText = ''a''\<rparr>,
              \<lparr>startTime = Fin 5, endTime = Fin 8, cueText = ''b''\<rparr>]"
  let ?tr = "\<lparr>cues = Some ?cs\<rparr>"
  let ?d = "\<lparr>textContent = ''Hello'', classList = [''active'']\<rparr>"
  let ?p4 = "initialPlayer\<lparr>player := \<lparr>currentTime = Fin 4, paused = False\<rparr>,
               subtitleDisplay := ?d, track := Some ?tr\<rparr>"
  let ?p0 = "initialPlayer\<lparr>subtitleDisplay := ?d, track := Some ?tr\<rparr>"
  have n4: "\<forall>i < length ?cs. \<not> covers (?cs ! i) (currentTime (player ?p4))"
    by (simp add: covers_def less_Suc_eq initialPlayer_def)
  have n0: "\<forall>i < length ?cs. \<not> covers (?cs ! i) (currentTime (player ?p0))"
    by (simp add: covers_def less_Suc_eq initialPlayer_def)
  have h4: "track ?p4 = Some ?tr \<and> cues ?tr = Some ?cs \<and> ?cs \<noteq> []
       \<and> (\<forall>i < length ?cs. \<not> covers (?cs ! i) (currentTime (player ?p4)))"
    using n4 by simp
  have h0: "track ?p0 = Some ?tr \<and> cues ?tr = Some ?cs \<and> ?cs \<noteq> []
       \<and> (\<forall>i < length ?cs. \<not> covers (?cs ! i) (currentTime (player ?p0)))"
    using n0 by simp
  have g4: "jgt (currentTime (player ?p4)) (Fin 0) \<and> \<not> paused (player ?p4)"
    by (simp add: initialPlayer_def)
  have g0: "\<not> (jgt (currentTime (player ?p0)) (Fin 0) \<and> \<not> paused (player ?p0))"
    by (simp add: initialPlayer_def)
  have "onTimeupdate ?p4 =
          ?p4\<lparr>subtitleDisplay :=
                 \<lparr>textContent = ''...'',
                  classList = classRemove ''active'' (classList (subtitleDisplay ?p4))\<rparr>\<rparr>"
    using no_match_display[of ?p4] h4 g4 by blast
  then have "subtitleDisplay (onTimeupdate ?p4) = \<lparr>textContent = ''...'', classList = []\<rparr>"
    by (simp add: classRemove_def)
  moreover have "onTimeupdate ?p0 = ?p0"
    using no_match_display[of ?p0] h0 g0 by blast
  ultimately show ?thesis by simp
qed

text \<open>
  Without native cues the observation writes nothing: at time 4, playing, with two
  parsed cues that do not cover the time and no native track, no cue is resolved and
  yet the display surface keeps its text.
\<close>

theorem no_match_display_counterexample:
  "currentCue (initialPlayer\<lparr>player := \<lparr>currentTime = Fin 4, paused = False\<rparr>,
        manualCues := [\<lparr>startTime = Fin 1, endTime = Fin 3, cueText = ''a''\<rparr>,
                       \<lparr>startTime = Fin 5, endTime = Fin 8, cueText = ''b''\<rparr>]\<rparr>) = None
   \<and> jgt (Fin 4) (Fin 0)
   \<and> textContent (subtitleDisplay (onTimeupdate
        (initialPlayer\<lparr>player := \<lparr>currentTime = Fin 4, paused = False\<rparr>,
           manualCues := [\<lparr>startTime = Fin 1, endTime = Fin 3, cueText = ''a''\<rparr>,
                          \<lparr>startTime = Fin 5, endTime = Fin 8, cueText = ''b''\<rparr>]\<rparr>))) = []
   \<and> textContent (subtitleDisplay (onTimeupdate
        (initialPlayer\<lparr>player := \<lparr>currentTime = Fin 4, paused = False\<rparr>,
           manualCues := [\<lparr>startTime = Fin 1, endTime = Fin 3, cueText = ''a''\<rparr>,
                          \<lparr>startTime = Fin 5, endTime = Fin 8, cueText = ''b''\<rparr>]\<rparr>))) \<noteq> ''...''"
  by (simp add: currentCue_def onTimeupdate_def initialPlayer_def scanCues_find covers_def)

text \<open>
  Claim C9. When the native text track has at least one cue, the resolution scans the
  native cues only: the cue it finds and the state \<^verbatim>\<open>updateSubtitleByTime\<close> leaves do
  not depend on the manually parsed cues, whatever these are, also when no native cue
  covers the current time and a manually parsed one does.
\<close>

theorem native_cues_only:
  assumes "track this = Some tr" "cues tr = Some cs" "cs \<noteq> []"
  shows "currentCue this = scanCues cs (currentTime (player this)) 0
       \<and> currentCue (this\<lparr>manualCues := m\<rparr>) = currentCue this
       \<and> updateSubtitleByTime (this\<lparr>manualCues := m\<rparr>)
           = (updateSubtitleByTime this)\<lparr>manualCues := m\<rparr>"
  using assms by (simp add: updateSubtitleByTime_def currentCue_def split: option.splits)

theorem native_cues_only_witness:
  "currentCue (initialPlayer\<lparr>player := \<lparr>currentTime = Fin 5, paused = False\<rparr>,
        track := Some \<lparr>cues = Some [\<lparr>startTime = Fin 1, endTime = Fin 3, cueText = ''n''\<rparr>]\<rparr>,
        manualCues := [\<lparr>startTime = Fin 0, endTime = Fin 9, cueText = ''m''\<rparr>]\<rparr>) = None
   \<and> covers \<lparr>startTime = Fin 0, endTime = Fin 9, cueText = ''m''\<rparr> (Fin 5)"
proof -
  let ?tr = "\<lparr>cues = Some [\<lparr>startTime = Fin 1, endTime = Fin 3, cueText = ''n''\<rparr>]\<rparr>"
  let ?p = "initialPlayer\<lparr>player := \<lparr>currentTime = Fin 5, paused = False\<rparr>,
        track := Some ?tr\<rparr>"
  let ?m = "[\<lparr>startTime = Fin 0, endTime = Fin 9, cueText = ''m''\<rparr>]"
  have h: "track ?p = Some ?tr" "cues ?tr = Some [\<lparr>startTime = Fin 1, endTime = Fin 3, cueText = ''n''\<rparr>]"
    "[\<lparr>startTime = Fin 1, endTime = Fin 3, cueText = ''n''\<rparr>] \<noteq> []"
    by simp_all
  have "currentCue (?p\<lparr>manualCues := ?m\<rparr>)
          = scanCues [\<lparr>startTime = Fin 1, endTime = Fin 3, cueText = ''n''\<rparr>] (Fin 5) 0"
    using native_cues_only[OF h, of ?m] by (simp add: initialPlayer_def)
  then show ?thesis
    by (simp add: scanCues_find covers_def)
qed

section \<open>Properties of the pause listener\<close>

text \<open>
  Claim C10. On a pause event the display surface changes only when the playback
  position is exactly 0: then the text becomes the start prompt and the class
  \<^verbatim>\<open>active\<close> is removed; at any other position, in particular at any positive one, the
  state is left as it was.
\<close>

theorem pause_only_at_zero:
  "(strictEq (currentTime (player this)) (Fin 0) \<longrightarrow>
      onPause this =
        this\<lparr>subtitleDisplay :=
               \<lparr>textContent = ''Press play to start the audio guide...'',
                classList = classRemove ''active'' (classList (subtitleDisplay this))\<rparr>\<rparr>
    \<and> ''active'' \<notin> set (classList (subtitleDisplay (onPause this))))
   \<and> (\<not> strictEq (currentTime (player this)) (Fin 0) \<longrightarrow> onPause this = this)
   \<and> (jgt (currentTime (player this)) (Fin 0) \<longrightarrow> onPause this = this)"
proof (cases "strictEq (currentTime (player this)) (Fin 0)")
  case True
  then have "currentTime (player this) = Fin 0"
    by (simp add: strictEq_def)
  then have "\<not> jgt (currentTime (player this)) (Fin 0)"
    by simp
  with True show ?thesis
    by (simp add: onPause_def classRemove_def)
next
  case False
  then have "onPause this = this"
    by (simp add: onPause_def)
  with False show ?thesis
    by simp
qed

theorem pause_only_at_zero_witness:
  "subtitleDisplay (onPause (initialPlayer\<lparr>subtitleDisplay :=
        \<lparr>textContent = ''Hello'', classList = [''active'']\<rparr>\<rparr>))
     = \<lparr>textContent = ''Press play to start the audio guide...'', classList = []\<rparr>
   \<and> onPause (initialPlayer\<lparr>player := \<lparr>currentTime = Fin 7, paused = True\<rparr>,
        subtitleDisplay := \<lparr>textContent = ''Hello'', classList = [''active'']\<rparr>\<rparr>)
     = initialPlayer\<lparr>player := \<lparr>currentTime = Fin 7, paused = True\<rparr>,
        subtitleDisplay := \<lparr>textContent = ''Hello'', classList = [''active'']\<rparr>\<rparr>"
proof -
  let ?d = "\<lparr>textContent = ''Hello'', classList = [''active'']\<rparr>"
  let ?p0 = "initialPlayer\<lparr>subtitleDisplay := ?d\<rparr>"
  let ?p7 = "initialPlayer\<lparr>player := \<lparr>currentTime = Fin 7, paused = True\<rparr>,
        subtitleDisplay := ?d\<rparr>"
  have z: "strictEq (currentTime (player ?p0)) (Fin 0)"
    by (simp add: initialPlayer_def strictEq_def)
  have g: "jgt (currentTime (player ?p7)) (Fin 0)"
    by (simp add: initialPlayer_def)
  have "subtitleDisplay (onPause ?p0)
          = \<lparr>textContent = ''Press play to start the audio guide...'', classList = []\<rparr>"
    using pause_only_at_zero[of ?p0] z by (simp add: initialPlayer_def classRemove_def)
  moreover have "onPause ?p7 = ?p7"
    using pause_only_at_zero[of ?p7] g by blast
  ultimately show ?thesis by simp
qed

section \<open>Properties of the caption parser\<close>

subsection \<open>Splitting, and lines that hold the delimiter\<close>

lemma split_nonempty: "split s sep \<noteq> []"
  by (cases s) (auto split: list.splits)

lemma parseTimestamp_total: "\<exists>v. parseTimestamp s = Inr v"
proof -
  have "length (split s '':'') - 1 < length (split s '':'')"
    using split_nonempty[of s "'':''"] by (simp add: length_greater_0_conv)
  then show ?thesis
    by (simp add: parseTimestamp_def nth_opt_def Let_def)
qed

lemma split_includes: "sep \<noteq> [] \<Longrightarrow> includes_str s sep \<Longrightarrow> 2 \<le> length (split s sep)"
proof (induction s)
  case Nil
  then show ?case by simp
next
  case (Cons c cs)
  show ?case
  proof (cases "startsWith (c # cs) sep")
    case True
    then show ?thesis
      using Cons.prems split_nonempty[of "drop (length sep) (c # cs)" sep]
      by (simp add: Suc_le_eq)
  next
    case False
    with Cons have "2 \<le> length (split cs sep)" by simp
    then show ?thesis
      using False by (cases "split cs sep") auto
  qed
qed

lemma startsWith_snoc: "c \<notin> set p \<Longrightarrow> startsWith (s @ [c]) p = startsWith s p"
proof (induction s arbitrary: p)
  case Nil
  then show ?case by (cases p) auto
next
  case (Cons x xs)
  then show ?case by (cases p) auto
qed

lemma includes_snoc:
  "c \<notin> set p \<Longrightarrow> p \<noteq> [] \<Longrightarrow> includes_str (s @ [c]) p = includes_str s p"
proof (induction s)
  case Nil
  then show ?case by (cases p) auto
next
  case (Cons x xs)
  have "startsWith ((x # xs) @ [c]) p = startsWith (x # xs) p"
    using Cons.prems(1) by (rule startsWith_snoc)
  with Cons show ?case by simp
qed

lemma includes_Cons_other:
  "c \<notin> set p \<Longrightarrow> p \<noteq> [] \<Longrightarrow> includes_str (c # s) p = includes_str s p"
  by (cases p) auto

lemma ws_not_arrow: "isWhiteSpace c \<Longrightarrow> c \<notin> set ''-->''"
  by (auto simp: isWhiteSpace_def)

lemma includes_dropWhile_ws:
  "includes_str (dropWhile isWhiteSpace s) ''-->'' = includes_str s ''-->''"
proof (induction s)
  case Nil
  show ?case by simp
next
  case (Cons c s)
  show ?case
  proof (cases "isWhiteSpace c")
    case True
    have "includes_str (c # s) ''-->'' = includes_str s ''-->''"
      by (rule includes_Cons_other) (use True ws_not_arrow in auto)
    with Cons True show ?thesis by simp
  next
    case False
    then show ?thesis by simp
  qed
qed

lemma includes_rev_dropWhile_ws:
  "includes_str (rev (dropWhile isWhiteSpace (rev s))) ''-->'' = includes_str s ''-->''"
proof (induction s rule: rev_induct)
  case Nil
  show ?case by simp
next
  case (snoc c s)
  show ?case
  proof (cases "isWhiteSpace c")
    case True
    have "includes_str (s @ [c]) ''-->'' = includes_str s ''-->''"
      by (rule includes_snoc) (use True ws_not_arrow in auto)
    with snoc True show ?thesis by simp
  next
    case False
    then show ?thesis by simp
  qed
qed

lemma isTiming_trim: "isTiming (trim l) = isTiming l"
  by (simp add: isTiming_def trim_def includes_rev_dropWhile_ws includes_dropWhile_ws)

lemma blank_not_timing: "\<not> nonBlank l \<Longrightarrow> \<not> isTiming l"
  using isTiming_trim[of l] by (simp add: nonBlank_def isTiming_def)

subsection \<open>The loops of \<^verbatim>\<open>parseVTT\<close>\<close>

lemma readText_eq:
  "readText lines i tx =
     (i + length (takeWhile nonBlank (drop i lines)),
      foldl addLine tx (takeWhile nonBlank (drop i lines)))"
proof (induction lines i tx rule: readText.induct)
  case (1 lines i tx)
  show ?case
  proof (cases "i < length lines")
    case True
    then have d: "drop i lines = lines ! i # drop (i + 1) lines"
      by (simp add: Cons_nth_drop_Suc)
    show ?thesis
    proof (cases "nonBlank (lines ! i)")
      case nb: True
      then have c: "i < length lines \<and> trim (lines ! i) \<noteq> []"
        using True by (simp add: nonBlank_def)
      have step: "(if tx \<noteq> [] then tx @ '' '' else tx) @ trim (lines ! i) = addLine tx (lines ! i)"
        by (simp add: addLine_def)
      have "readText lines i tx = readText lines (i + 1) (addLine tx (lines ! i))"
        using c by (subst readText.simps) (simp add: addLine_def)
      also have "\<dots> = (i + 1 + length (takeWhile nonBlank (drop (i + 1) lines)),
          foldl addLine (addLine tx (lines ! i)) (takeWhile nonBlank (drop (i + 1) lines)))"
        using 1[OF c] unfolding step .
      finally show ?thesis
        using nb by (simp add: d)
    next
      case nb: False
      then have c: "\<not> (i < length lines \<and> trim (lines ! i) \<noteq> [])"
        by (simp add: nonBlank_def)
      have "readText lines i tx = (i, tx)"
        by (subst readText.simps) (simp only: c if_False)
      then show ?thesis
        using nb by (simp add: d)
    qed
  next
    case False
    then have c: "\<not> (i < length lines \<and> trim (lines ! i) \<noteq> [])"
      by simp
    have "readText lines i tx = (i, tx)"
      by (subst readText.simps) (simp only: c if_False)
    then show ?thesis
      using False by simp
  qed
qed

lemma foldl_addLine:
  "list_all nonBlank ls \<Longrightarrow>
   foldl addLine tx ls =
     (if ls = [] then tx
      else if tx = [] then joinText (map trim ls)
      else tx @ '' '' @ joinText (map trim ls))"
proof (induction ls arbitrary: tx)
  case Nil
  show ?case by simp
next
  case (Cons l ls)
  from Cons.prems have rest: "list_all nonBlank ls"
    by simp
  from Cons.prems have nb: "trim l \<noteq> []"
    by (simp add: nonBlank_def)
  have ne: "addLine tx l \<noteq> []"
    using nb by (simp add: addLine_def)
  show ?case
  proof (cases ls)
    case Nil
    then show ?thesis by (simp add: addLine_def)
  next
    case (Cons l' ls')
    then show ?thesis
      using Cons.IH[OF rest, of "addLine tx l"] ne
      by (simp add: addLine_def)
  qed
qed

lemma readText_spec:
  "readText lines i [] =
     (i + length (takeWhile nonBlank (drop i lines)),
      joinText (map trim (takeWhile nonBlank (drop i lines))))"
proof -
  have "list_all nonBlank (takeWhile nonBlank (drop i lines))"
    by (simp add: list_all_iff) (meson set_takeWhileD)
  from foldl_addLine[OF this, of "[]"] show ?thesis
    by (auto simp: readText_eq)
qed

lemma skipHeader_eq:
  "skipHeader lines i = i + length (takeWhile (\<lambda>l. \<not> isTiming l) (drop i lines))"
proof (induction lines i rule: skipHeader.induct)
  case (1 lines i)
  show ?case
  proof (cases "i < length lines \<and> \<not> includes_str (lines ! i) ''-->''")
    case True
    then have d: "drop i lines = lines ! i # drop (i + 1) lines"
      by (simp add: Cons_nth_drop_Suc)
    have "skipHeader lines i = skipHeader lines (i + 1)"
      using True by (subst skipHeader.simps) simp
    also have "\<dots> = i + 1 + length (takeWhile (\<lambda>l. \<not> isTiming l) (drop (i + 1) lines))"
      using 1[OF True] .
    finally show ?thesis
      using True by (simp add: d isTiming_def)
  next
    case False
    have s: "skipHeader lines i = i"
      using False by (subst skipHeader.simps) auto
    show ?thesis
    proof (cases "i < length lines")
      case True
      then have d: "drop i lines = lines ! i # drop (i + 1) lines"
        by (simp add: Cons_nth_drop_Suc)
      with False True s show ?thesis by (simp add: isTiming_def)
    next
      case False
      with s show ?thesis by simp
    qed
  qed
qed

lemma drop_skipHeader:
  "drop (skipHeader lines 0) lines = dropWhile (\<lambda>l. \<not> isTiming l) lines"
  by (simp add: skipHeader_eq dropWhile_eq_drop)

lemma cuesOfLines_after_text:
  "cuesOfLines (drop (Suc (length (takeWhile nonBlank rest))) rest) =
   cuesOfLines (dropWhile nonBlank rest)"
proof (cases "dropWhile nonBlank rest")
  case Nil
  then have "length (takeWhile nonBlank rest) = length rest"
    by (metis append_Nil2 takeWhile_dropWhile_id)
  then show ?thesis by (simp add: Nil)
next
  case (Cons x r)
  then have x: "\<not> nonBlank x"
    by (metis hd_dropWhile list.sel(1) list.distinct(1))
  have "drop (length (takeWhile nonBlank rest)) rest = x # r"
    using Cons by (simp add: dropWhile_eq_drop)
  then have "drop (Suc (length (takeWhile nonBlank rest))) rest = r"
    by (metis drop_Suc tl_drop list.sel(3))
  then show ?thesis
    using Cons x blank_not_timing[of x] by simp
qed

lemma parseCues_eq: "parseCues lines i mc = (None, mc @ cuesOfLines (drop i lines))"
proof (induction lines i mc rule: parseCues.induct)
  case (1 lines i mc)
  show ?case
  proof (cases "i < length lines")
    case False
    then show ?thesis
      by (subst parseCues.simps) simp
  next
    case True
    let ?l = "lines ! i"
    let ?rest = "drop (i + 1) lines"
    have d: "drop i lines = ?l # ?rest"
      using True by (simp add: Cons_nth_drop_Suc)
    show ?thesis
    proof (cases "isTiming ?l")
      case False
      then have nt: "\<not> includes_str (trim ?l) ''-->''"
        using isTiming_trim[of ?l] by (simp add: isTiming_def)
      have "parseCues lines i mc = parseCues lines (i + 1) mc"
        using True nt by (subst parseCues.simps) (simp add: Let_def)
      also have "\<dots> = (None, mc @ cuesOfLines ?rest)"
        using 1(2)[OF True refl nt] .
      finally show ?thesis
        using False by (simp add: d)
    next
      case t: True
      then have inc: "includes_str (trim ?l) ''-->''"
        using isTiming_trim[of ?l] by (simp add: isTiming_def)
      let ?times = "split (trim ?l) ''-->''"
      have len: "2 \<le> length ?times"
        using inc by (intro split_includes) simp_all
      have t0: "nth_opt ?times 0 = Some (?times ! 0)" and t1: "nth_opt ?times 1 = Some (?times ! 1)"
        using len by (auto simp: nth_opt_def)
      obtain st where st: "parseTimestamp (trim (?times ! 0)) = Inr st"
        using parseTimestamp_total by blast
      obtain en where en: "parseTimestamp (trim (?times ! 1)) = Inr en"
        using parseTimestamp_total by blast
      let ?j = "fst (readText lines (i + 1) [])"
      let ?c = "\<lparr>startTime = st, endTime = en, cueText = snd (readText lines (i + 1) [])\<rparr>"
      have c: "?c = cueOf ?l ?rest"
        using t0 t1 st en
        by (simp add: cueOf_def fieldTime_def timingField_def toString_def readText_spec)
      have j: "?j + 1 = Suc (length (takeWhile nonBlank ?rest)) + (i + 1)"
        by (simp add: readText_spec)
      have tail: "cuesOfLines (drop (?j + 1) lines) = cuesOfLines (dropWhile nonBlank ?rest)"
        unfolding j drop_drop[symmetric] by (rule cuesOfLines_after_text)
      have "parseCues lines i mc = parseCues lines (?j + 1) (mc @ [?c])"
        using True inc t0 t1 st en by (subst parseCues.simps) (simp add: Let_def)
      also have "\<dots> = (None, (mc @ [?c]) @ cuesOfLines (drop (?j + 1) lines))"
        using 1(1)[OF True refl inc refl t0 st t1 en] .
      finally show ?thesis
        using t c tail by (simp add: d)
    qed
  qed
qed

lemma parseVTT_eq:
  "parseVTT vttText this = (None, this\<lparr>manualCues := manualCues this @ encodedCues vttText\<rparr>)"
  by (simp add: parseVTT_def Let_def parseCues_eq drop_skipHeader encodedCues_def)

text \<open>
  Claim C2. \<^verbatim>\<open>parseVTT\<close> skips the lines before the first line that contains \<^verbatim>\<open>-->\<close>;
  then, reading on in order, each line that contains \<^verbatim>\<open>-->\<close> is split at the delimiter
  into two timestamp fields, parsed by \<^verbatim>\<open>parseTimestamp\<close> as \<open>startTime\<close> and
  \<open>endTime\<close>, and the non-blank lines that follow at once are consumed as the cue's
  text, joined with single spaces, up to a blank line or the end of the input (fields
  and lines are stripped of surrounding white space; a line consumed as text is not
  read again). The cues are appended in this order and no exception is raised.
  Parsing \<^verbatim>\<open>"00:00:01.000 --> 00:00:03.000\nHello\nworld\n\n"\<close> into an empty track gives
  exactly one cue, from 1 to 3, with the text \<^verbatim>\<open>Hello world\<close>.
\<close>

theorem parseVTT_cues:
  "parseVTT rawText this = (None, this\<lparr>manualCues := manualCues this @ encodedCues rawText\<rparr>)
   \<and> parseVTT ''00:00:01.000 --> 00:00:03.000\<newline>Hello\<newline>world\<newline>\<newline>'' initialPlayer
       = (None, initialPlayer\<lparr>manualCues :=
            [\<lparr>startTime = Fin 1, endTime = Fin 3, cueText = ''Hello world''\<rparr>]\<rparr>)"
proof -
  have "encodedCues ''00:00:01.000 --> 00:00:03.000\<newline>Hello\<newline>world\<newline>\<newline>''
         = [\<lparr>startTime = Fin 1, endTime = Fin 3, cueText = ''Hello world''\<rparr>]"
    by (simp add: eval_cues eval_ts eval_str eval_num)
  then show ?thesis
    by (simp add: parseVTT_eq initialPlayer_def)
qed

section \<open>Cue times\<close>

subsection \<open>Well-formed timestamps and their forms\<close>

lemma secondsValue_cases:
  assumes "secondsValue s = Some v"
  shows "(\<exists>S. split s ''.'' = [S] \<and> isDigits S \<and> v = of_nat (digitsValue 10 S))
       \<or> (\<exists>S f. split s ''.'' = [S, f] \<and> isDigits S \<and> isDigits f
              \<and> v = of_nat (digitsValue 10 S) + of_nat (digitsValue 10 f) / 10 ^ length f)"
  using assms by (auto simp: secondsValue_def split: list.splits if_splits)

lemma secondsValue_nonneg: "secondsValue s = Some v \<Longrightarrow> 0 \<le> v"
  by (auto dest: secondsValue_cases)

lemma timestampValue_cases:
  assumes "timestampValue t = Some v"
  shows "(\<exists>S. split t '':'' = [S] \<and> secondsValue S = Some v)
       \<or> (\<exists>M S w. split t '':'' = [M, S] \<and> isDigits M \<and> secondsValue S = Some w
              \<and> v = of_nat (digitsValue 10 M) * 60 + w)
       \<or> (\<exists>H M S w. split t '':'' = [H, M, S] \<and> isDigits H \<and> isDigits M \<and> secondsValue S = Some w
              \<and> v = of_nat (digitsValue 10 H) * 3600 + of_nat (digitsValue 10 M) * 60 + w)"
  using assms by (auto simp: timestampValue_def split: list.splits if_splits option.splits)

lemma timestampValue_nonneg: "timestampValue t = Some v \<Longrightarrow> 0 \<le> v"
  by (auto dest!: timestampValue_cases dest: secondsValue_nonneg)

lemma split_join: "split s [c] = p # ps \<Longrightarrow> s = p @ concat (map ((#) c) ps)"
proof (induction s arbitrary: p ps)
  case Nil
  then show ?case by simp
next
  case (Cons x xs)
  obtain q qs where q: "split xs [c] = q # qs"
    using split_nonempty[of xs "[c]"] by (cases "split xs [c]") auto
  from Cons.IH[OF q] have xs: "xs = q @ concat (map ((#) c) qs)" .
  show ?case
  proof (cases "x = c")
    case True
    with Cons.prems q have "p = []" "ps = q # qs" by simp_all
    with xs True show ?thesis by simp
  next
    case False
    with Cons.prems q have "p = x # q" "ps = qs" by simp_all
    with xs show ?thesis by simp
  qed
qed

lemma secondsValue_form:
  assumes "secondsValue s = Some w"
  shows "\<exists>S F. s = S @ fracText F \<and> isDigits S \<and> wfFrac F
           \<and> w = of_nat (digitsValue 10 S) + fracValue F"
proof -
  from secondsValue_cases[OF assms] consider
      (whole) S where "split s ''.'' = [S]" "isDigits S" "w = of_nat (digitsValue 10 S)"
    | (frac) S f where "split s ''.'' = [S, f]" "isDigits S" "isDigits f"
        "w = of_nat (digitsValue 10 S) + of_nat (digitsValue 10 f) / 10 ^ length f"
    by blast
  then show ?thesis
  proof cases
    case whole
    from split_join[OF whole(1)] have "s = S @ fracText None"
      by (simp add: fracText_def)
    with whole show ?thesis
      by (intro exI[of _ S] exI[of _ None]) (simp add: wfFrac_def fracValue_def)
  next
    case frac
    from split_join[OF frac(1)] have "s = S @ fracText (Some f)"
      by (simp add: fracText_def)
    with frac show ?thesis
      by (intro exI[of _ S] exI[of _ "Some f"]) (simp add: wfFrac_def fracValue_def)
  qed
qed

lemma digitNat_le: "isDigit c \<Longrightarrow> digitNat c \<le> 9"
  by (auto simp: isDigit_def digitNat_def digitValue_def)

lemma digitsValue_snoc: "digitsValue R (ds @ [c]) = digitsValue R ds * R + digitNat c"
  by (simp add: digitsValue_def)

lemma digitsValue_less: "list_all isDigit ds \<Longrightarrow> digitsValue 10 ds < 10 ^ length ds"
proof (induction ds rule: rev_induct)
  case Nil
  show ?case by (simp add: digitsValue_def)
next
  case (snoc c ds)
  then have "digitsValue 10 ds < 10 ^ length ds" and "digitNat c \<le> 9"
    by (simp_all add: digitNat_le)
  then have "digitsValue 10 ds * 10 + digitNat c < 10 ^ length ds * 10"
    by linarith
  then show ?case
    by (simp add: digitsValue_snoc mult.commute)
qed

lemma fracValue_bounds: "wfFrac F \<Longrightarrow> 0 \<le> fracValue F \<and> fracValue F < 1"
proof (cases F)
  case None
  then show ?thesis by (simp add: fracValue_def)
next
  case (Some f)
  assume "wfFrac F"
  with Some have "list_all isDigit f" by (simp add: wfFrac_def isDigits_def)
  then have "digitsValue 10 f < 10 ^ length f" by (rule digitsValue_less)
  then have "(of_nat (digitsValue 10 f) :: rat) < of_nat (10 ^ length f)"
    by (simp only: of_nat_less_iff)
  then have "(of_nat (digitsValue 10 f) :: rat) / 10 ^ length f < 1"
    by simp
  with Some show ?thesis by (simp add: fracValue_def)
qed

lemma floor_frac_parts:
  assumes "0 \<le> r" "r < 1"
  shows "\<lfloor>of_nat n + r :: rat\<rfloor> = int n" "frac (of_nat n + r :: rat) = r"
proof -
  show f: "\<lfloor>of_nat n + r :: rat\<rfloor> = int n"
    using assms by (intro floor_unique) simp_all
  show "frac (of_nat n + r :: rat) = r"
    by (simp add: frac_def f)
qed

subsection \<open>The number of a well-formed timestamp\<close>

lemma addFraction_secondsNumber:
  assumes "wfFrac F" "n < 9007199254740992"
  shows "addFraction (Fin (of_nat n)) F = secondsNumber (of_nat n + fracValue F)"
proof -
  note b = fracValue_bounds[OF assms(1)]
  have fl: "\<lfloor>of_nat n + fracValue F\<rfloor> = int n" and fr: "frac (of_nat n + fracValue F) = fracValue F"
    using floor_frac_parts[of "fracValue F" n] b by simp_all
  show ?thesis
  proof (cases F)
    case None
    have "jadd (Fin (of_nat n)) (Fin 0) = Fin (of_nat n)"
      using jadd_of_nat[of n 0] assms(2) by simp
    then show ?thesis
      using None by (simp add: addFraction_def secondsNumber_def fracValue_def roundDouble_def)
  next
    case (Some f)
    then show ?thesis
      using fl fr by (simp add: addFraction_def secondsNumber_def fracNumber_def fracValue_def)
  qed
qed

lemma timestampValue_parse:
  assumes "timestampValue t = Some v" "v < 9007199254740992"
  shows "parseTimestamp t = Inr (secondsNumber v)"
proof -
  from timestampValue_cases[OF assms(1)] consider
      (s) S where "split t '':'' = [S]" "secondsValue S = Some v"
    | (ms) M S w where "split t '':'' = [M, S]" "isDigits M" "secondsValue S = Some w"
        "v = of_nat (digitsValue 10 M) * 60 + w"
    | (hms) H M S w where "split t '':'' = [H, M, S]" "isDigits H" "isDigits M"
        "secondsValue S = Some w"
        "v = of_nat (digitsValue 10 H) * 3600 + of_nat (digitsValue 10 M) * 60 + w"
    by blast
  then show ?thesis
  proof cases
    case s
    from secondsValue_form[OF s(2)] obtain S' F where f: "S = S' @ fracText F" "isDigits S'"
      "wfFrac F" "v = of_nat (digitsValue 10 S') + fracValue F"
      by blast
    from split_join[OF s(1)] f have t: "t = S' @ fracText F" by simp
    have n: "digitsValue 10 S' < 9007199254740992"
    proof -
      have "(of_nat (digitsValue 10 S') :: rat) < of_nat 9007199254740992"
        using f(4) assms(2) fracValue_bounds[OF f(3)] by simp
      then show ?thesis by (simp only: of_nat_less_iff)
    qed
    have "parseTimestamp t = Inr (addFraction (Fin (of_nat (digitsValue 10 S'))) F)"
      unfolding t using parseTimestamp_s[OF f(2,3)] fieldNumber_exact[OF n] by simp
    then show ?thesis
      using addFraction_secondsNumber[OF f(3) n] f(4) by simp
  next
    case ms
    from secondsValue_form[OF ms(3)] obtain S' F where f: "S = S' @ fracText F" "isDigits S'"
      "wfFrac F" "w = of_nat (digitsValue 10 S') + fracValue F"
      by blast
    from split_join[OF ms(1)] f have t: "t = M @ '':'' @ S' @ fracText F" by simp
    let ?n = "digitsValue 10 M * 60 + digitsValue 10 S'"
    have v: "v = of_nat ?n + fracValue F"
      using ms(4) f(4) by simp
    have n: "?n < 9007199254740992"
    proof -
      have "(of_nat ?n :: rat) < of_nat 9007199254740992"
        using v assms(2) fracValue_bounds[OF f(3)] by simp
      then show ?thesis by (simp only: of_nat_less_iff)
    qed
    then have "digitsValue 10 [] * 3600 + digitsValue 10 M * 60 + digitsValue 10 S'
                 < 9007199254740992"
      by (simp add: digitsValue_def)
    from whole_seconds_fields(2)[OF this]
    have "parseTimestamp t = Inr (addFraction (Fin (of_nat ?n)) F)"
      unfolding t using parseTimestamp_ms[OF ms(2) f(2,3)] by simp
    then show ?thesis
      using addFraction_secondsNumber[OF f(3) n] v by simp
  next
    case hms
    from secondsValue_form[OF hms(4)] obtain S' F where f: "S = S' @ fracText F" "isDigits S'"
      "wfFrac F" "w = of_nat (digitsValue 10 S') + fracValue F"
      by blast
    from split_join[OF hms(1)] f have t: "t = H @ '':'' @ M @ '':'' @ S' @ fracText F" by simp
    let ?n = "digitsValue 10 H * 3600 + digitsValue 10 M * 60 + digitsValue 10 S'"
    have v: "v = of_nat ?n + fracValue F"
      using hms(5) f(4) by simp
    have n: "?n < 9007199254740992"
    proof -
      have "(of_nat ?n :: rat) < of_nat 9007199254740992"
        using v assms(2) fracValue_bounds[OF f(3)] by simp
      then show ?thesis by (simp only: of_nat_less_iff)
    qed
    from whole_seconds_fields(1)[OF n]
    have "parseTimestamp t = Inr (addFraction (Fin (of_nat ?n)) F)"
      unfolding t using parseTimestamp_hms[OF hms(2,3) f(2,3)] by simp
    then show ?thesis
      using addFraction_secondsNumber[OF f(3) n] v by simp
  qed
qed

subsection \<open>Order\<close>

lemma roundDouble_unit:
  assumes "0 \<le> x" "x \<le> 1"
  shows "\<exists>y. roundDouble x = Fin y \<and> 0 \<le> y \<and> y \<le> 1"
proof -
  have "roundDouble (of_nat 1) = Fin (of_nat 1)"
    by (rule roundDouble_of_nat) simp
  then have one: "roundDouble 1 = Fin 1" by simp
  have lo: "jle (Fin 0) (roundDouble x)"
    using assms(1) by (rule roundDouble_nonneg)
  have hi: "jle (roundDouble x) (Fin 1)"
    using roundDouble_mono[OF assms] one by simp
  show ?thesis
    using lo hi by (cases "roundDouble x") simp_all
qed

lemma secondsNumber_nonneg:
  assumes "0 \<le> a"
  shows "jle (Fin 0) (secondsNumber a)"
proof -
  have f: "0 \<le> frac a" "frac a \<le> 1"
    using frac_lt_1[of a] by (simp_all add: less_imp_le)
  from roundDouble_unit[OF f] obtain y where y: "roundDouble (frac a) = Fin y" "0 \<le> y"
    by blast
  have "(0::rat) \<le> of_int \<lfloor>a\<rfloor>" using assms by simp
  with y(2) have "0 \<le> of_int \<lfloor>a\<rfloor> + y" by simp
  then show ?thesis
    unfolding secondsNumber_def y(1) by (simp add: roundDouble_nonneg)
qed

lemma secondsNumber_mono:
  assumes "0 \<le> a" "a \<le> b"
  shows "jle (secondsNumber a) (secondsNumber b)"
proof -
  have fa: "0 \<le> frac a" "frac a \<le> 1" and fb: "0 \<le> frac b" "frac b \<le> 1"
    using frac_lt_1[of a] frac_lt_1[of b] by (simp_all add: less_imp_le)
  from roundDouble_unit[OF fa] obtain ya where ya: "roundDouble (frac a) = Fin ya" "0 \<le> ya"
    "ya \<le> 1" by blast
  from roundDouble_unit[OF fb] obtain yb where yb: "roundDouble (frac b) = Fin yb" "0 \<le> yb"
    "yb \<le> 1" by blast
  have le: "of_int \<lfloor>a\<rfloor> + ya \<le> of_int \<lfloor>b\<rfloor> + yb"
  proof (cases "\<lfloor>a\<rfloor> = \<lfloor>b\<rfloor>")
    case True
    then have "frac a \<le> frac b"
      using assms(2) by (simp add: frac_def)
    from roundDouble_mono[OF fa(1) this] have "ya \<le> yb"
      by (simp add: ya yb)
    with True show ?thesis by simp
  next
    case False
    with floor_mono[OF assms(2)] have "\<lfloor>a\<rfloor> + 1 \<le> \<lfloor>b\<rfloor>" by simp
    then have "(of_int \<lfloor>a\<rfloor> :: rat) + 1 \<le> of_int \<lfloor>b\<rfloor>"
      by (metis of_int_1 of_int_add of_int_le_iff)
    with ya(3) yb(2) show ?thesis by linarith
  qed
  have "(0::rat) \<le> of_int \<lfloor>a\<rfloor>" using assms(1) by simp
  with ya(2) have nn: "0 \<le> of_int \<lfloor>a\<rfloor> + ya" by simp
  show ?thesis
    unfolding secondsNumber_def ya(1) yb(1) using roundDouble_mono[OF nn le] by simp
qed

lemma cueOf_ordered:
  assumes "wellFormedTiming l"
  shows "timesOrdered (cueOf l rest)"
proof -
  from assms obtain a b where a: "timestampValue (timingField l 0) = Some a"
    and b: "timestampValue (timingField l 1) = Some b" and ab: "a \<le> b"
    and bb: "b < 9007199254740992"
    by (auto simp: wellFormedTiming_def split: option.splits)
  have a0: "0 \<le> a"
    using a by (rule timestampValue_nonneg)
  have s: "parseTimestamp (timingField l 0) = Inr (secondsNumber a)"
    using a ab bb by (intro timestampValue_parse) simp_all
  have e: "parseTimestamp (timingField l 1) = Inr (secondsNumber b)"
    using b bb by (rule timestampValue_parse)
  show ?thesis
    using secondsNumber_nonneg[OF a0] secondsNumber_mono[OF a0 ab] s e
    by (simp add: timesOrdered_def cueOf_def fieldTime_def)
qed

lemma cuesOfLines_ordered:
  "\<forall>l \<in> set ls. isTiming l \<longrightarrow> wellFormedTiming l \<Longrightarrow>
   \<forall>c \<in> set (cuesOfLines ls). timesOrdered c"
proof (induction ls rule: cuesOfLines.induct)
  case 1
  show ?case by simp
next
  case (2 l rest)
  show ?case
  proof (cases "isTiming l")
    case True
    have "\<forall>l \<in> set (dropWhile nonBlank rest). isTiming l \<longrightarrow> wellFormedTiming l"
      using 2(3) by (auto dest: set_dropWhileD)
    with 2(1)[OF True] have "\<forall>c \<in> set (cuesOfLines (dropWhile nonBlank rest)). timesOrdered c"
      by blast
    moreover have "timesOrdered (cueOf l rest)"
      using 2(3) True by (simp add: cueOf_ordered)
    ultimately show ?thesis
      using True by simp
  next
    case False
    with 2(2)[OF False] 2(3) show ?thesis by simp
  qed
qed

text \<open>
  Claim C6, amended. \<^verbatim>\<open>parseVTT\<close> stores the times as \<^verbatim>\<open>parseTimestamp\<close> returns them
  and checks nothing. When on every line that contains \<^verbatim>\<open>-->\<close> the two fields are
  well-formed timestamps below \<open>2 ^ 53\<close> seconds and the first is not later than the
  second, every cue that \<^verbatim>\<open>parseVTT\<close> appends satisfies
  \<open>0 \<le> startTime \<le> endTime\<close>: rounding to doubles keeps the order of such times.
\<close>

theorem cue_times_ordered:
  assumes "\<forall>l \<in> set (split rawText ''\<newline>''). isTiming l \<longrightarrow> wellFormedTiming l"
  shows "\<forall>c \<in> set (drop (length (manualCues this)) (manualCues (snd (parseVTT rawText this)))).
           timesOrdered c"
proof -
  have "\<forall>l \<in> set (dropWhile (\<lambda>l. \<not> isTiming l) (split rawText ''\<newline>'')).
          isTiming l \<longrightarrow> wellFormedTiming l"
    using assms by (auto dest: set_dropWhileD)
  then have "\<forall>c \<in> set (encodedCues rawText). timesOrdered c"
    unfolding encodedCues_def by (rule cuesOfLines_ordered)
  then show ?thesis
    by (simp add: parseVTT_eq)
qed

theorem cue_times_ordered_witness:
  "manualCues (snd (parseVTT ''WEBVTT\<newline>\<newline>00:01.500 --> 00:03\<newline>Hello'' initialPlayer))
       = [\<lparr>startTime = Fin (3 / 2), endTime = Fin 3, cueText = ''Hello''\<rparr>]
   \<and> timesOrdered \<lparr>startTime = Fin (3 / 2), endTime = Fin 3, cueText = ''Hello''\<rparr>"
proof -
  let ?t = "''WEBVTT\<newline>\<newline>00:01.500 --> 00:03\<newline>Hello''"
  have h: "\<forall>l \<in> set (split ?t ''\<newline>''). isTiming l \<longrightarrow> wellFormedTiming l"
    by (simp add: isTiming_def wellFormedTiming_def timingField_def timestampValue_def
        secondsValue_def isDigits_def isDigit_def eval_str)
  have "encodedCues ?t = [\<lparr>startTime = Fin (3 / 2), endTime = Fin 3, cueText = ''Hello''\<rparr>]"
    by (simp add: eval_cues eval_ts eval_str eval_num)
  then have e: "manualCues (snd (parseVTT ?t initialPlayer))
       = [\<lparr>startTime = Fin (3 / 2), endTime = Fin 3, cueText = ''Hello''\<rparr>]"
    by (simp add: parseVTT_eq initialPlayer_def)
  have "\<forall>c \<in> set (drop (length (manualCues initialPlayer))
           (manualCues (snd (parseVTT ?t initialPlayer)))). timesOrdered c"
    using cue_times_ordered[OF h] .
  then have "timesOrdered \<lparr>startTime = Fin (3 / 2), endTime = Fin 3, cueText = ''Hello''\<rparr>"
    unfolding e by (simp add: initialPlayer_def)
  with e show ?thesis by blast
qed

text \<open>
  Without that condition the invariant fails: two well-formed timestamps in
  decreasing order give a cue that starts at 5 and ends at 1.
\<close>

theorem cue_times_counterexample:
  "manualCues (snd (parseVTT ''00:00:05.000 --> 00:00:01.000'' initialPlayer))
     = [\<lparr>startTime = Fin 5, endTime = Fin 1, cueText = []\<rparr>]
   \<and> \<not> jle (startTime \<lparr>startTime = Fin 5, endTime = Fin 1, cueText = []\<rparr>)
            (endTime \<lparr>startTime = Fin 5, endTime = Fin 1, cueText = []\<rparr>)"
proof -
  have "encodedCues ''00:00:05.000 --> 00:00:01.000''
          = [\<lparr>startTime = Fin 5, endTime = Fin 1, cueText = []\<rparr>]"
    by (simp add: eval_cues eval_ts eval_str eval_num)
  then show ?thesis
    by (simp add: parseVTT_eq initialPlayer_def)
qed

text \<open>
  The bound matters: past \<open>2 ^ 53\<close> seconds the whole seconds are rounded, and two
  well-formed timestamps written in increasing order can come out in decreasing
  order.
\<close>

lemma rounding_past_bound:
  "timestampValue ''9007199254740995:0:0'' = Some 32425917317067582000
   \<and> timestampValue ''0:0:32425917317067582000'' = Some 32425917317067582000
   \<and> parseTimestamp ''9007199254740995:0:0'' = Inr (Fin 32425917317067587584)
   \<and> parseTimestamp ''0:0:32425917317067582000'' = Inr (Fin 32425917317067583488)"
proof -
  have "timestampValue ''9007199254740995:0:0'' = Some 32425917317067582000"
    by (simp add: timestampValue_def secondsValue_def isDigits_def isDigit_def eval_str)
  moreover have "timestampValue ''0:0:32425917317067582000'' = Some 32425917317067582000"
    by (simp add: timestampValue_def secondsValue_def isDigits_def isDigit_def eval_str)
  moreover have "parseTimestamp ''9007199254740995:0:0'' = Inr (Fin 32425917317067587584)"
    by (simp add: eval_ts eval_str eval_num)
  moreover have "parseTimestamp ''0:0:32425917317067582000'' = Inr (Fin 32425917317067583488)"
    by (simp add: eval_ts eval_str eval_num)
  ultimately show ?thesis by simp
qed

section \<open>The stored track\<close>

text \<open>
  Claim C7, amended. \<^verbatim>\<open>parseVTT\<close> appends to the stored track: after the call the
  track is the track as it was before, unchanged and in the same order, followed by
  exactly the cues the text encodes; it holds exactly those cues when it was empty
  before the call, as at the first load. The rest of the state is not touched.
\<close>

theorem parseVTT_appends:
  "manualCues (snd (parseVTT rawText this)) = manualCues this @ encodedCues rawText
   \<and> take (length (manualCues this)) (manualCues (snd (parseVTT rawText this))) = manualCues this
   \<and> (manualCues this = [] \<longrightarrow> manualCues (snd (parseVTT rawText this)) = encodedCues rawText)
   \<and> player (snd (parseVTT rawText this)) = player this
   \<and> subtitleDisplay (snd (parseVTT rawText this)) = subtitleDisplay this
   \<and> track (snd (parseVTT rawText this)) = track this"
proof -
  have r: "snd (parseVTT rawText this)
             = this\<lparr>manualCues := manualCues this @ encodedCues rawText\<rparr>"
    by (simp add: parseVTT_eq)
  have "manualCues (snd (parseVTT rawText this)) = manualCues this @ encodedCues rawText"
    unfolding r by simp
  moreover have "player (snd (parseVTT rawText this)) = player this"
    "subtitleDisplay (snd (parseVTT rawText this)) = subtitleDisplay this"
    "track (snd (parseVTT rawText this)) = track this"
    unfolding r by simp_all
  ultimately show ?thesis by simp
qed

theorem parseVTT_appends_witness:
  "manualCues initialPlayer = []
   \<and> manualCues (snd (parseVTT ''00:01 --> 00:02\<newline>Hi'' initialPlayer))
       = [\<lparr>startTime = Fin 1, endTime = Fin 2, cueText = ''Hi''\<rparr>]"
proof -
  have e: "encodedCues ''00:01 --> 00:02\<newline>Hi''
             = [\<lparr>startTime = Fin 1, endTime = Fin 2, cueText = ''Hi''\<rparr>]"
    by (simp add: eval_cues eval_ts eval_str eval_num)
  have i: "manualCues initialPlayer = []"
    by (simp add: initialPlayer_def)
  show ?thesis
    using parseVTT_appends[of "''00:01 --> 00:02\<newline>Hi''" initialPlayer] i e by simp
qed

text \<open>
  The track is not replaced: the same text parsed into a track that holds one cue
  leaves two cues, and parsed into an empty track leaves one.
\<close>

theorem parseVTT_replaces_counterexample:
  "manualCues (snd (parseVTT ''00:01 --> 00:02\<newline>Hi''
       (initialPlayer\<lparr>manualCues := [\<lparr>startTime = Fin 7, endTime = Fin 9, cueText = ''old''\<rparr>]\<rparr>)))
     = [\<lparr>startTime = Fin 7, endTime = Fin 9, cueText = ''old''\<rparr>,
        \<lparr>startTime = Fin 1, endTime = Fin 2, cueText = ''Hi''\<rparr>]
   \<and> manualCues (snd (parseVTT ''00:01 --> 00:02\<newline>Hi'' initialPlayer))
     = [\<lparr>startTime = Fin 1, endTime = Fin 2, cueText = ''Hi''\<rparr>]
   \<and> manualCues (snd (parseVTT ''00:01 --> 00:02\<newline>Hi''
       (initialPlayer\<lparr>manualCues := [\<lparr>startTime = Fin 7, endTime = Fin 9, cueText = ''old''\<rparr>]\<rparr>)))
     \<noteq> encodedCues ''00:01 --> 00:02\<newline>Hi''"
proof -
  let ?old = "\<lparr>startTime = Fin 7, endTime = Fin 9, cueText = ''old''\<rparr>"
  let ?new = "\<lparr>startTime = Fin 1, endTime = Fin 2, cueText = ''Hi''\<rparr>"
  have c: "encodedCues ''00:01 --> 00:02\<newline>Hi'' = [?new]"
    by (simp add: eval_cues eval_ts eval_str eval_num)
  have a: "manualCues (snd (parseVTT ''00:01 --> 00:02\<newline>Hi''
              (initialPlayer\<lparr>manualCues := [?old]\<rparr>))) = [?old, ?new]"
    by (simp add: parseVTT_eq c)
  have b: "manualCues (snd (parseVTT ''00:01 --> 00:02\<newline>Hi'' initialPlayer)) = [?new]"
    by (simp add: parseVTT_eq c initialPlayer_def)
  show ?thesis
    unfolding a b c by simp
qed

section \<open>Malformed input\<close>

lemma single_line: "CHR ''\<newline>'' \<notin> set l \<Longrightarrow> split l ''\<newline>'' = [l]"
  by (rule split_no_sep)

lemma NaN_not_covers: "startTime c = NaN \<or> endTime c = NaN \<Longrightarrow> \<not> covers c t"
  by (cases t) (auto simp: covers_def)

text \<open>
  Claim C8, amended. Timestamp parsing is total: \<^verbatim>\<open>parseTimestamp\<close> returns a number
  (possibly \<^verbatim>\<open>NaN\<close>) for every string and \<^verbatim>\<open>parseVTT\<close> raises no exception on any text.
  A timing line is never rejected or corrected: whatever its fields are, its cue is
  appended with the two values \<^verbatim>\<open>parseTimestamp\<close> returns. A cue with a \<^verbatim>\<open>NaN\<close> bound
  covers no time, so the resolution passes over it. (A malformed field need not parse
  to 0 or \<^verbatim>\<open>NaN\<close>: the numeric prefix of each field is its value.)
\<close>

theorem parsing_total:
  "(\<exists>v. parseTimestamp s = Inr v)
   \<and> fst (parseVTT rawText this) = None
   \<and> (isTiming l \<and> CHR ''\<newline>'' \<notin> set l \<longrightarrow>
        (\<exists>a b. parseTimestamp (timingField l 0) = Inr a
              \<and> parseTimestamp (timingField l 1) = Inr b
              \<and> manualCues (snd (parseVTT l this))
                  = manualCues this @ [\<lparr>startTime = a, endTime = b, cueText = []\<rparr>]))
   \<and> (startTime c = NaN \<or> endTime c = NaN \<longrightarrow> \<not> covers c t)"
proof -
  have 1: "\<exists>v. parseTimestamp s = Inr v"
    by (rule parseTimestamp_total)
  have 2: "fst (parseVTT rawText this) = None"
    by (simp add: parseVTT_eq)
  have 3: "\<exists>a b. parseTimestamp (timingField l 0) = Inr a
              \<and> parseTimestamp (timingField l 1) = Inr b
              \<and> manualCues (snd (parseVTT l this))
                  = manualCues this @ [\<lparr>startTime = a, endTime = b, cueText = []\<rparr>]"
    if l: "isTiming l" "CHR ''\<newline>'' \<notin> set l"
  proof -
    obtain a where a: "parseTimestamp (timingField l 0) = Inr a"
      using parseTimestamp_total by blast
    obtain b where b: "parseTimestamp (timingField l 1) = Inr b"
      using parseTimestamp_total by blast
    have "encodedCues l = [cueOf l []]"
      using l by (simp add: encodedCues_def single_line)
    then have "manualCues (snd (parseVTT l this))
                  = manualCues this @ [\<lparr>startTime = a, endTime = b, cueText = []\<rparr>]"
      using a b by (simp add: parseVTT_eq cueOf_def fieldTime_def)
    with a b show ?thesis by blast
  qed
  show ?thesis
    using 1 2 3 NaN_not_covers[of c t] by blast
qed

theorem parsing_total_witness:
  "isTiming ''abc --> 5x'' \<and> CHR ''\<newline>'' \<notin> set ''abc --> 5x''
   \<and> manualCues (snd (parseVTT ''abc --> 5x'' initialPlayer))
       = [\<lparr>startTime = NaN, endTime = Fin 5, cueText = []\<rparr>]
   \<and> \<not> covers \<lparr>startTime = NaN, endTime = Fin 5, cueText = []\<rparr> (Fin 3)"
proof -
  let ?l = "''abc --> 5x''"
  let ?c = "\<lparr>startTime = NaN, endTime = Fin 5, cueText = []\<rparr>"
  have h: "isTiming ?l \<and> CHR ''\<newline>'' \<notin> set ?l"
    by (simp add: isTiming_def)
  have a: "parseTimestamp (timingField ?l 0) = Inr NaN"
    by (simp add: timingField_def eval_ts eval_str eval_num)
  have b: "parseTimestamp (timingField ?l 1) = Inr (Fin 5)"
    by (simp add: timingField_def eval_ts eval_str eval_num)
  note t = parsing_total[of "[]" "[]" initialPlayer ?l ?c "Fin 3"]
  from t h obtain a' b' where "parseTimestamp (timingField ?l 0) = Inr a'"
    "parseTimestamp (timingField ?l 1) = Inr b'"
    "manualCues (snd (parseVTT ?l initialPlayer))
       = manualCues initialPlayer @ [\<lparr>startTime = a', endTime = b', cueText = []\<rparr>]"
    by blast
  with a b have "manualCues (snd (parseVTT ?l initialPlayer)) = [?c]"
    by (simp add: initialPlayer_def)
  moreover have "\<not> covers ?c (Fin 3)"
    using t by simp
  ultimately show ?thesis
    using h by blast
qed

text \<open>
  Malformed fields that parse to a number other than 0: \<^verbatim>\<open>5x\<close> is not a timestamp of
  the grammar and parses to 5; \<^verbatim>\<open>1:2:3:4\<close> has four fields and parses to 4.
\<close>

theorem malformed_counterexample:
  "timestampValue ''5x'' = None
   \<and> parseTimestamp ''5x'' = Inr (Fin 5)
   \<and> timestampValue ''1:2:3:4'' = None
   \<and> parseTimestamp ''1:2:3:4'' = Inr (Fin 4)"
proof -
  have "timestampValue ''5x'' = None"
    by (simp add: timestampValue_def secondsValue_def isDigits_def isDigit_def)
  moreover have "parseTimestamp ''5x'' = Inr (Fin 5)"
    by (simp add: eval_ts eval_str eval_num)
  moreover have "timestampValue ''1:2:3:4'' = None"
    by (simp add: timestampValue_def)
  moreover have "parseTimestamp ''1:2:3:4'' = Inr (Fin 4)"
    by (simp add: eval_ts eval_str eval_num)
  ultimately show ?thesis by simp
qed

section \<open>Properties of the loader\<close>

lemma load_catch:
  assumes "primaryFails net"
  shows "loadVTTManually net this =
           (FetchCalled # fst (loadVTTWithXHR net this), snd (loadVTTWithXHR net this))"
  using assms
  by (auto simp: primaryFails_def loadVTTManually_def Let_def split: fetchOutcome.splits)

lemma xhr_success:
  assumes "xhrResult net = XhrLoad status responseText" "status = 200 \<or> status = 0"
  shows "loadVTTWithXHR net this =
           ([XhrSent], this\<lparr>manualCues := manualCues this @ encodedCues responseText\<rparr>)"
  using assms by (auto simp: loadVTTWithXHR_def parseVTT_eq)

lemma xhr_status_failure:
  assumes "xhrResult net = XhrLoad status responseText" "status \<noteq> 200" "status \<noteq> 0"
  shows "loadVTTWithXHR net this =
           ([XhrSent,
             Published ''Unable to load subtitles. Please use a local server or try Safari.''],
            this\<lparr>subtitleDisplay :=
                   \<lparr>textContent =
                      ''Unable to load subtitles. Please use a local server or try Safari.'',
                    classList = classList (subtitleDisplay this)\<rparr>\<rparr>)"
  using assms by (simp add: loadVTTWithXHR_def publish_def)

lemma xhr_error:
  assumes "xhrResult net = XhrError"
  shows "loadVTTWithXHR net this =
           ([XhrSent,
             Published ''Subtitles unavailable in this browser. Try Safari or use a local server.''],
            this\<lparr>subtitleDisplay :=
                   \<lparr>textContent =
                      ''Subtitles unavailable in this browser. Try Safari or use a local server.'',
                    classList = classList (subtitleDisplay this)\<rparr>\<rparr>)"
  using assms by (simp add: loadVTTWithXHR_def publish_def)

text \<open>
  Claim C5. When the primary transport fails (a network error or a status that is not
  2xx), a load sends one \<^verbatim>\<open>fetch\<close> and then exactly one \<^verbatim>\<open>XMLHttpRequest\<close>. If the
  latter loads with status 200 or 0 its text is parsed (its cues are appended) and
  nothing is written to the display surface. If it fails too, by an error or by
  another status, the text of the display surface becomes the failure message of
  that case, written once, after the two requests; nothing else of the state
  changes and no further request is sent.
\<close>

theorem fallback_chain:
  assumes "primaryFails net"
  shows "count_list (fst (loadVTTManually net this)) FetchCalled = 1
       \<and> count_list (fst (loadVTTManually net this)) XhrSent = 1
       \<and> (\<forall>status responseText.
            xhrResult net = XhrLoad status responseText \<and> (status = 200 \<or> status = 0) \<longrightarrow>
            loadVTTManually net this
              = ([FetchCalled, XhrSent],
                 this\<lparr>manualCues := manualCues this @ encodedCues responseText\<rparr>))
       \<and> (\<forall>status responseText.
            xhrResult net = XhrLoad status responseText \<and> status \<noteq> 200 \<and> status \<noteq> 0 \<longrightarrow>
            loadVTTManually net this
              = ([FetchCalled, XhrSent,
                  Published ''Unable to load subtitles. Please use a local server or try Safari.''],
                 this\<lparr>subtitleDisplay :=
                        \<lparr>textContent =
                           ''Unable to load subtitles. Please use a local server or try Safari.'',
                         classList = classList (subtitleDisplay this)\<rparr>\<rparr>))
       \<and> (xhrResult net = XhrError \<longrightarrow>
            loadVTTManually net this
              = ([FetchCalled, XhrSent,
                  Published
                    ''Subtitles unavailable in this browser. Try Safari or use a local server.''],
                 this\<lparr>subtitleDisplay :=
                        \<lparr>textContent =
                           ''Subtitles unavailable in this browser. Try Safari or use a local server.'',
                         classList = classList (subtitleDisplay this)\<rparr>\<rparr>))"
proof -
  note c = load_catch[OF assms, of this]
  have s: "loadVTTManually net this
              = ([FetchCalled, XhrSent],
                 this\<lparr>manualCues := manualCues this @ encodedCues responseText\<rparr>)"
    if "xhrResult net = XhrLoad status responseText \<and> (status = 200 \<or> status = 0)"
    for status responseText
    using xhr_success[of net status responseText this] that c by simp
  have f: "loadVTTManually net this
              = ([FetchCalled, XhrSent,
                  Published ''Unable to load subtitles. Please use a local server or try Safari.''],
                 this\<lparr>subtitleDisplay :=
                        \<lparr>textContent =
                           ''Unable to load subtitles. Please use a local server or try Safari.'',
                         classList = classList (subtitleDisplay this)\<rparr>\<rparr>)"
    if "xhrResult net = XhrLoad status responseText \<and> status \<noteq> 200 \<and> status \<noteq> 0"
    for status responseText
    using xhr_status_failure[of net status responseText this] that c by simp
  have e: "loadVTTManually net this
              = ([FetchCalled, XhrSent,
                  Published
                    ''Subtitles unavailable in this browser. Try Safari or use a local server.''],
                 this\<lparr>subtitleDisplay :=
                        \<lparr>textContent =
                           ''Subtitles unavailable in this browser. Try Safari or use a local server.'',
                         classList = classList (subtitleDisplay this)\<rparr>\<rparr>)"
    if "xhrResult net = XhrError"
    using xhr_error[OF that, of this] c by simp
  have n: "count_list (fst (loadVTTManually net this)) FetchCalled = 1
       \<and> count_list (fst (loadVTTManually net this)) XhrSent = 1"
  proof (cases "xhrResult net")
    case XhrError
    from e[OF this] show ?thesis by simp
  next
    case (XhrLoad status responseText)
    show ?thesis
    proof (cases "status = 200 \<or> status = 0")
      case True
      with XhrLoad s[of status responseText] show ?thesis by simp
    next
      case False
      with XhrLoad f[of status responseText] show ?thesis by simp
    qed
  qed
  from n s f e show ?thesis by blast
qed

theorem fallback_chain_witness:
  "primaryFails \<lparr>fetchResult = FetchRejected, xhrResult = XhrLoad 0 ''00:01 --> 00:02\<newline>Hi''\<rparr>
   \<and> loadVTTManually \<lparr>fetchResult = FetchRejected, xhrResult = XhrLoad 0 ''00:01 --> 00:02\<newline>Hi''\<rparr>
        initialPlayer
      = ([FetchCalled, XhrSent],
         initialPlayer\<lparr>manualCues := [\<lparr>startTime = Fin 1, endTime = Fin 2, cueText = ''Hi''\<rparr>]\<rparr>)
   \<and> primaryFails \<lparr>fetchResult = FetchResponse 404 None, xhrResult = XhrError\<rparr>
   \<and> loadVTTManually \<lparr>fetchResult = FetchResponse 404 None, xhrResult = XhrError\<rparr> initialPlayer
      = ([FetchCalled, XhrSent,
          Published ''Subtitles unavailable in this browser. Try Safari or use a local server.''],
         initialPlayer\<lparr>subtitleDisplay :=
           \<lparr>textContent =
              ''Subtitles unavailable in this browser. Try Safari or use a local server.'',
            classList = []\<rparr>\<rparr>)
   \<and> primaryFails \<lparr>fetchResult = FetchResponse 500 (Some []), xhrResult = XhrLoad 404 []\<rparr>
   \<and> textContent (subtitleDisplay (snd (loadVTTManually
        \<lparr>fetchResult = FetchResponse 500 (Some []), xhrResult = XhrLoad 404 []\<rparr> initialPlayer)))
      = ''Unable to load subtitles. Please use a local server or try Safari.''"
proof -
  let ?n1 = "\<lparr>fetchResult = FetchRejected, xhrResult = XhrLoad 0 ''00:01 --> 00:02\<newline>Hi''\<rparr>"
  let ?n2 = "\<lparr>fetchResult = FetchResponse 404 None, xhrResult = XhrError\<rparr>"
  let ?n3 = "\<lparr>fetchResult = FetchResponse 500 (Some []), xhrResult = XhrLoad 404 []\<rparr>"
  have p1: "primaryFails ?n1" and p2: "primaryFails ?n2" and p3: "primaryFails ?n3"
    by (simp_all add: primaryFails_def responseOk_def)
  have e: "encodedCues ''00:01 --> 00:02\<newline>Hi''
             = [\<lparr>startTime = Fin 1, endTime = Fin 2, cueText = ''Hi''\<rparr>]"
    by (simp add: eval_cues eval_ts eval_str eval_num)
  have "loadVTTManually ?n1 initialPlayer
      = ([FetchCalled, XhrSent],
         initialPlayer\<lparr>manualCues := [\<lparr>startTime = Fin 1, endTime = Fin 2, cueText = ''Hi''\<rparr>]\<rparr>)"
    using fallback_chain[OF p1, of initialPlayer] e by (simp add: initialPlayer_def)
  moreover have "loadVTTManually ?n2 initialPlayer
      = ([FetchCalled, XhrSent,
          Published ''Subtitles unavailable in this browser. Try Safari or use a local server.''],
         initialPlayer\<lparr>subtitleDisplay :=
           \<lparr>textContent =
              ''Subtitles unavailable in this browser. Try Safari or use a local server.'',
            classList = []\<rparr>\<rparr>)"
    using fallback_chain[OF p2, of initialPlayer] by (simp add: initialPlayer_def)
  moreover have "textContent (subtitleDisplay (snd (loadVTTManually ?n3 initialPlayer)))
      = ''Unable to load subtitles. Please use a local server or try Safari.''"
    using fallback_chain[OF p3, of initialPlayer] by simp
  ultimately show ?thesis
    using p1 p2 p3 by simp
qed

end
